theory Spec2Isabelle
  imports
    Main
    "HOL-Library.FSet"
    "HOL-Library.Finite_Map"
    "HOL-Library.Char_ord"
    "HOL-Library.List_Lexorder"
    "HOL-Library.Product_Lexorder"
begin

section \<open>The social network graph of Main.cpp\<close>

text \<open>
  The class \<^verbatim>\<open>SocialNetwork\<close> has one member,
  \<^verbatim>\<open>map<string, set<string>> adj\<close>. A \<^verbatim>\<open>std::map\<close> is a finite map that is
  iterated in ascending key order and a \<^verbatim>\<open>std::set\<close> is a finite set that is iterated in
  ascending order, so the member is a finite map from strings to finite sets of strings.
  \<^verbatim>\<open>std::string\<close> compares lexicographically on unsigned bytes, which is the order of
  \<^typ>\<open>string\<close> given by \<open>Char_ord\<close> and \<open>List_Lexorder\<close>; pairs compare lexicographically
  (\<open>Product_Lexorder\<close>), as \<^verbatim>\<open>std::pair\<close> does.

  The C++ type \<^verbatim>\<open>int\<close> is the 32-bit signed integer, with the values \<open>-2^31\<close> to
  \<open>INT_MAX = 2^31 - 1\<close>. The model holds such a value in \<^typ>\<open>int\<close> and applies \<open>int32\<close> to
  the result of every addition of the source that can leave this range: \<open>int32\<close> is the
  reduction to 32 bits in two's complement, which is what the compiled program computes
  (the C++ standard leaves the overflow of a signed addition undefined). The additions are
  \<^verbatim>\<open>dist[currentUser] + 1\<close> in the breadth-first search and
  \<^verbatim>\<open>suggestionCounts[potentialFriend]++\<close>; in Dijkstra's algorithm the test
  \<^verbatim>\<open>dist[u] != INF\<close> guards the only addition, so its result is at most \<open>INT_MAX\<close>.
\<close>

type_synonym graph = "(string, string fset) fmap"

definition INT_MAX :: int where
  "INT_MAX = 2147483647"

definition int32 :: "int \<Rightarrow> int" where
  "int32 x = (x + 2147483648) mod 4294967296 - 2147483648"

text \<open>
  The lines written to \<^verbatim>\<open>cout\<close> are the only way the methods report a failure; each
  method of the model returns the line it prints (if any) as a value. \<open>algorithm\<close> tells
  the two path searches apart in their messages.
\<close>

datatype algorithm = BFS | Dijkstra

datatype message =
    UserAdded string
  | FriendshipAdded string string
  | UsersDoNotExist
  | UserNotFound string
  | MutualUsersNotFound string string
  | SuggestUserNotFound string
  | StartUserNotFound algorithm string
  | EndUserNotFound algorithm string
  | NoPathFound algorithm string string

text \<open>The messages that report a label absent from the graph (the spec's \<open>UnknownUser\<close>).\<close>

fun unknown_user :: "message \<Rightarrow> bool" where
  "unknown_user UsersDoNotExist = True"
| "unknown_user (UserNotFound u) = True"
| "unknown_user (MutualUsersNotFound a b) = True"
| "unknown_user (SuggestUserNotFound u) = True"
| "unknown_user (StartUserNotFound alg u) = True"
| "unknown_user (EndUserNotFound alg u) = True"
| "unknown_user (UserAdded u) = False"
| "unknown_user (FriendshipAdded a b) = False"
| "unknown_user (NoPathFound alg a b) = False"

text \<open>\<^verbatim>\<open>std::map::at\<close> throws \<^verbatim>\<open>std::out_of_range\<close> on a missing key.\<close>

datatype exn = OutOfRange

text \<open>
  \<^verbatim>\<open>operator[]\<close> of \<^verbatim>\<open>std::map\<close>: a missing key is inserted with the value-initialised
  mapped value (\<open>dflt\<close>) before the reference is returned.
\<close>

definition index_default :: "'v \<Rightarrow> ('k, 'v) fmap \<Rightarrow> 'k \<Rightarrow> 'v \<times> ('k, 'v) fmap" where
  "index_default dflt m k =
     (case fmlookup m k of Some v \<Rightarrow> (v, m) | None \<Rightarrow> (dflt, fmupd k dflt m))"

subsection \<open>Mutation\<close>

definition addUser :: "graph \<Rightarrow> string \<Rightarrow> message option \<times> graph" where
  "addUser adj userName =
     (if fmlookup adj userName = None then
        (let (old, adj1) = index_default {||} adj userName
         in (Some (UserAdded userName), fmupd userName {||} adj1))
      else (None, adj))"

text \<open>\<^verbatim>\<open>adj[u].insert(v)\<close>\<close>

definition insert_friend :: "graph \<Rightarrow> string \<Rightarrow> string \<Rightarrow> graph" where
  "insert_friend adj u v =
     (let (friends, adj1) = index_default {||} adj u in fmupd u (finsert v friends) adj1)"

definition addFriendship :: "graph \<Rightarrow> string \<Rightarrow> string \<Rightarrow> message option \<times> graph" where
  "addFriendship adj user1 user2 =
     (if fmlookup adj user1 \<noteq> None \<and> fmlookup adj user2 \<noteq> None then
        (Some (FriendshipAdded user1 user2),
         insert_friend (insert_friend adj user1 user2) user2 user1)
      else (Some UsersDoNotExist, adj))"

subsection \<open>Lookup and mutual friends\<close>

definition getFriends :: "graph \<Rightarrow> string \<Rightarrow> string fset \<times> message option \<times> graph" where
  "getFriends adj userName =
     (case fmlookup adj userName of
        Some friends \<Rightarrow> (friends, None, adj)
      | None \<Rightarrow> ({||}, Some (UserNotFound userName), adj))"

text \<open>
  \<^verbatim>\<open>std::set_intersection\<close> on two sorted ranges, as the C++ standard specifies it: the two
  ranges are merged and the elements found in both are written to the output.
\<close>

fun set_intersection :: "'a::linorder list \<Rightarrow> 'a list \<Rightarrow> 'a list" where
  "set_intersection [] ys = []"
| "set_intersection (x # xs) [] = []"
| "set_intersection (x # xs) (y # ys) =
     (if x < y then set_intersection xs (y # ys)
      else if y < x then set_intersection (x # xs) ys
      else x # set_intersection xs ys)"

definition getMutualFriends ::
  "graph \<Rightarrow> string \<Rightarrow> string \<Rightarrow> string fset \<times> message option \<times> graph" where
  "getMutualFriends adj user1 user2 =
     (case (fmlookup adj user1, fmlookup adj user2) of
        (Some friends1, Some friends2) \<Rightarrow>
          (fset_of_list
             (set_intersection (sorted_list_of_fset friends1) (sorted_list_of_fset friends2)),
           None, adj)
      | _ \<Rightarrow> ({||}, Some (MutualUsersNotFound user1 user2), adj))"

text \<open>The friend set of a user as \<^verbatim>\<open>getFriends\<close> returns it: empty for an unknown label.\<close>

definition neighbors :: "graph \<Rightarrow> string \<Rightarrow> string fset" where
  "neighbors adj u = fst (getFriends adj u)"

subsection \<open>Sequences of mutating calls\<close>

datatype call = AddUser string | AddFriendship string string

fun perform :: "graph \<Rightarrow> call \<Rightarrow> graph" where
  "perform adj (AddUser u) = snd (addUser adj u)"
| "perform adj (AddFriendship a b) = snd (addFriendship adj a b)"

definition run :: "call list \<Rightarrow> graph" where
  "run calls = foldl perform fmempty calls"

text \<open>A graph state is reachable when some sequence of calls builds it from the empty graph.\<close>

definition reachable :: "graph \<Rightarrow> bool" where
  "reachable adj \<longleftrightarrow> (\<exists>calls. adj = run calls)"

subsection \<open>Friend suggestions\<close>

text \<open>
  The member \<open>adj\<close> is carried in the state of every loop next to the loop's local
  variables, so that what a method leaves in \<open>adj\<close> can be read off its final state.
\<close>

record suggest_state =
  sg_adj :: graph
  sg_counts :: "(string, int) fmap"

text \<open>\<^verbatim>\<open>suggestionCounts[potentialFriend]++\<close>\<close>

definition increment :: "(string, int) fmap \<Rightarrow> string \<Rightarrow> (string, int) fmap" where
  "increment m k = (let (c, m1) = index_default 0 m k in fmupd k (int32 (c + 1)) m1)"

fun suggest_inner :: "string \<Rightarrow> string fset \<Rightarrow> string list \<Rightarrow> suggest_state \<Rightarrow> suggest_state" where
  "suggest_inner userName directFriends [] st = st"
| "suggest_inner userName directFriends (potentialFriend # rest) st =
     suggest_inner userName directFriends rest
       (if potentialFriend \<noteq> userName \<and> potentialFriend |\<notin>| directFriends then
          (if fmlookup (sg_adj st) potentialFriend \<noteq> None then
             st\<lparr>sg_counts := increment (sg_counts st) potentialFriend\<rparr>
           else st)
        else st)"

fun suggest_outer :: "string \<Rightarrow> string fset \<Rightarrow> string list \<Rightarrow> suggest_state \<Rightarrow> suggest_state" where
  "suggest_outer userName directFriends [] st = st"
| "suggest_outer userName directFriends (friendName # rest) st =
     (case fmlookup (sg_adj st) friendName of
        None \<Rightarrow> suggest_outer userName directFriends rest st
      | Some friendsOfFriend \<Rightarrow>
          suggest_outer userName directFriends rest
            (suggest_inner userName directFriends (sorted_list_of_fset friendsOfFriend) st))"

text \<open>The comparison the source passes to \<^verbatim>\<open>std::sort\<close>.\<close>

definition suggestion_before :: "string \<times> int \<Rightarrow> string \<times> int \<Rightarrow> bool" where
  "suggestion_before a b = (if snd a \<noteq> snd b then snd a > snd b else fst a < fst b)"

text \<open>
  \<^verbatim>\<open>std::sort\<close> with a comparison: the C++ standard fixes the result (a permutation of
  the range in which no element compares less than one that precedes it), not the
  algorithm; insertion sort stands for it. The elements sorted here have distinct labels,
  so no two of them are equivalent under \<open>suggestion_before\<close> and every sorting algorithm
  returns the same list.
\<close>

fun insert_by :: "('a \<Rightarrow> 'a \<Rightarrow> bool) \<Rightarrow> 'a \<Rightarrow> 'a list \<Rightarrow> 'a list" where
  "insert_by lt x [] = [x]"
| "insert_by lt x (y # ys) =
     (if lt y x then y # insert_by lt x ys else x # y # ys)"

fun sort_by :: "('a \<Rightarrow> 'a \<Rightarrow> bool) \<Rightarrow> 'a list \<Rightarrow> 'a list" where
  "sort_by lt [] = []"
| "sort_by lt (x # xs) = insert_by lt x (sort_by lt xs)"

definition suggestFriends ::
  "graph \<Rightarrow> string \<Rightarrow> (string \<times> int) list \<times> message option \<times> graph" where
  "suggestFriends adj userName =
     (case fmlookup adj userName of
        None \<Rightarrow> ([], Some (SuggestUserNotFound userName), adj)
      | Some directFriends \<Rightarrow>
          (let st = suggest_outer userName directFriends (sorted_list_of_fset directFriends)
                      \<lparr>sg_adj = adj, sg_counts = fmempty\<rparr>;
               sortedSuggestions = sorted_list_of_fmap (sg_counts st)
           in (sort_by suggestion_before sortedSuggestions, None, sg_adj st)))"

subsection \<open>Shortest path by breadth-first search\<close>

record bfs_state =
  bfs_adj :: graph
  bfs_q :: "string list"
  bfs_parent :: "(string, string) fmap"
  bfs_dist :: "(string, int) fmap"
  bfs_found :: bool
  bfs_distance :: int

text \<open>
  The initialisation loop over the entries of \<open>adj\<close>. An assignment \<^verbatim>\<open>m[k] = v\<close> inserts
  or overwrites: it is \<open>fmupd k v m\<close>.
\<close>

fun bfs_init :: "string list \<Rightarrow> bfs_state \<Rightarrow> bfs_state" where
  "bfs_init [] st = st"
| "bfs_init (k # ks) st =
     bfs_init ks (st\<lparr>bfs_dist := fmupd k (- 1) (bfs_dist st),
                     bfs_parent := fmupd k [] (bfs_parent st)\<rparr>)"

text \<open>
  The \<^verbatim>\<open>for\<close> loop over the neighbours of \<open>currentUser\<close>; it ends early (\<^verbatim>\<open>break\<close>) when
  \<open>endUser\<close> is discovered. The test \<^verbatim>\<open>dist.count(neighbor) && dist[neighbor] == -1\<close> reads
  \<open>dist[neighbor]\<close> only for a key that is present, so it is a lookup that yields \<open>-1\<close>.
  \<open>dnb\<close> is the value that \<^verbatim>\<open>dist[neighbor] = dist[currentUser] + 1\<close> stores, and that
  \<^verbatim>\<open>distance = dist[neighbor]\<close> reads back.
\<close>

fun bfs_visit :: "string \<Rightarrow> string \<Rightarrow> string list \<Rightarrow> bfs_state \<Rightarrow> bfs_state" where
  "bfs_visit currentUser endUser [] st = st"
| "bfs_visit currentUser endUser (neighbor # rest) st =
     (if fmlookup (bfs_dist st) neighbor = Some (- 1) then
        (let (dcur, dist1) = index_default 0 (bfs_dist st) currentUser;
             dnb = int32 (dcur + 1);
             dist2 = fmupd neighbor dnb dist1;
             parent1 = fmupd neighbor currentUser (bfs_parent st);
             st1 = st\<lparr>bfs_q := bfs_q st @ [neighbor], bfs_parent := parent1, bfs_dist := dist2\<rparr>
         in if neighbor = endUser then
              st1\<lparr>bfs_found := True, bfs_distance := dnb\<rparr>
            else bfs_visit currentUser endUser rest st1)
      else bfs_visit currentUser endUser rest st)"

text \<open>
  The \<^verbatim>\<open>while (!q.empty() && !found)\<close> loop. Its termination rests on what the loop
  keeps true of \<open>dist\<close> and \<open>q\<close>, so the model is a partial function and termination is
  proved from an invariant.
\<close>

partial_function (option) bfs_loop :: "string \<Rightarrow> bfs_state \<Rightarrow> (exn + bfs_state) option" where
  "bfs_loop endUser st =
     (if bfs_q st \<noteq> [] \<and> \<not> bfs_found st then
        (let currentUser = hd (bfs_q st);
             st1 = st\<lparr>bfs_q := tl (bfs_q st)\<rparr>
         in case fmlookup (bfs_adj st1) currentUser of
              None \<Rightarrow> Some (Inl OutOfRange)
            | Some friends \<Rightarrow>
                bfs_loop endUser (bfs_visit currentUser endUser (sorted_list_of_fset friends) st1))
      else Some (Inr st))"

text \<open>
  Path reconstruction: \<^verbatim>\<open>while (!current.empty()) { path.push_front(current);
  current = parent[current]; }\<close>. It follows parent links until the empty string and
  runs forever on a cyclic parent map (which the search can build once a distance has
  wrapped around to \<open>-1\<close>, the mark of an undiscovered user).
\<close>

partial_function (option) bfs_path ::
  "(string, string) fmap \<Rightarrow> string \<Rightarrow> string list \<Rightarrow> string list option" where
  "bfs_path parent current path =
     (if current \<noteq> [] then
        (let (next, parent1) = index_default [] parent current
         in bfs_path parent1 next (current # path))
      else Some path)"

declare bfs_loop.simps [code]
declare bfs_path.simps [code]

text \<open>The state in which the \<^verbatim>\<open>while\<close> loop is entered.\<close>

definition bfs_start :: "graph \<Rightarrow> string \<Rightarrow> bfs_state" where
  "bfs_start adj startUser =
     (let st0 = bfs_init (sorted_list_of_fset (fmdom adj))
                  \<lparr>bfs_adj = adj, bfs_q = [], bfs_parent = fmempty, bfs_dist = fmempty,
                   bfs_found = False, bfs_distance = - 1\<rparr>
      in st0\<lparr>bfs_q := bfs_q st0 @ [startUser], bfs_dist := fmupd startUser 0 (bfs_dist st0)\<rparr>)"

definition shortestPathBFS ::
  "graph \<Rightarrow> string \<Rightarrow> string \<Rightarrow> (exn + (int \<times> string list) \<times> message option \<times> graph) option" where
  "shortestPathBFS adj startUser endUser =
     (if fmlookup adj startUser = None then
        Some (Inr ((- 1, []), Some (StartUserNotFound BFS startUser), adj))
      else if fmlookup adj endUser = None then
        Some (Inr ((- 1, []), Some (EndUserNotFound BFS endUser), adj))
      else if startUser = endUser then
        Some (Inr ((0, [startUser]), None, adj))
      else
        (case bfs_loop endUser (bfs_start adj startUser) of
           None \<Rightarrow> None
         | Some (Inl e) \<Rightarrow> Some (Inl e)
         | Some (Inr st) \<Rightarrow>
             if bfs_found st then
               (case bfs_path (bfs_parent st) endUser [] of
                  None \<Rightarrow> None
                | Some path \<Rightarrow> Some (Inr ((bfs_distance st, path), None, bfs_adj st)))
             else
               Some (Inr ((bfs_distance st, []),
                          Some (NoPathFound BFS startUser endUser), bfs_adj st))))"

subsection \<open>Shortest path by Dijkstra's algorithm\<close>

text \<open>
  The constant \<^verbatim>\<open>INF\<close> of the source, \<^verbatim>\<open>numeric_limits<int>::max()\<close> for the 32-bit
  \<^verbatim>\<open>int\<close> (the name \<open>INF\<close> is taken by the lattice syntax of HOL).
\<close>

definition INF_int :: int where
  "INF_int = 2147483647"

text \<open>
  \<^verbatim>\<open>std::priority_queue\<close> with \<^verbatim>\<open>greater<pair<int, string>>\<close>: \<open>top\<close> is the least pair
  it holds and \<open>pop\<close> removes it. The queue is a list of its entries; the pairs are totally
  ordered, so the entry returned does not depend on how the heap arranges them.
\<close>

definition pq_top :: "(int \<times> string) list \<Rightarrow> int \<times> string" where
  "pq_top pq = fold min (tl pq) (hd pq)"

definition pq_pop :: "(int \<times> string) list \<Rightarrow> (int \<times> string) list" where
  "pq_pop pq = remove1 (pq_top pq) pq"

definition pq_push :: "int \<times> string \<Rightarrow> (int \<times> string) list \<Rightarrow> (int \<times> string) list" where
  "pq_push x pq = pq @ [x]"

record dijkstra_state =
  dj_adj :: graph
  dj_pq :: "(int \<times> string) list"
  dj_parent :: "(string, string) fmap"
  dj_dist :: "(string, int) fmap"
  dj_found :: bool
  dj_finalDistance :: int

fun dijkstra_init :: "string list \<Rightarrow> dijkstra_state \<Rightarrow> dijkstra_state" where
  "dijkstra_init [] st = st"
| "dijkstra_init (k # ks) st =
     dijkstra_init ks (st\<lparr>dj_dist := fmupd k INF_int (dj_dist st),
                          dj_parent := fmupd k [] (dj_parent st)\<rparr>)"

text \<open>
  The relaxation loop over the neighbours \<open>v\<close> of \<open>u\<close>. The sum \<open>du + weight\<close> is computed
  only when \<open>du\<close> is not \<^verbatim>\<open>INF\<close>; the distances are never negative, so it is at most
  \<open>INT_MAX\<close> and needs no reduction.
\<close>

fun dijkstra_relax :: "string \<Rightarrow> string list \<Rightarrow> dijkstra_state \<Rightarrow> dijkstra_state" where
  "dijkstra_relax u [] st = st"
| "dijkstra_relax u (v # rest) st =
     (let weight = 1 in
      if fmlookup (dj_dist st) v \<noteq> None then
        (let (du, dist1) = index_default 0 (dj_dist st) u in
         if du \<noteq> INF_int \<and> du + weight < fst (index_default 0 dist1 v) then
           (let dist2 = fmupd v (du + weight) dist1;
                parent1 = fmupd v u (dj_parent st)
            in dijkstra_relax u rest
                 (st\<lparr>dj_pq := pq_push (du + weight, v) (dj_pq st),
                     dj_parent := parent1, dj_dist := dist2\<rparr>))
         else dijkstra_relax u rest (st\<lparr>dj_dist := dist1\<rparr>))
      else dijkstra_relax u rest st)"

text \<open>
  The \<^verbatim>\<open>while (!pq.empty())\<close> loop, left by \<^verbatim>\<open>break\<close> when \<open>endUser\<close> is popped. As for the
  breadth-first search, its termination is proved from what the loop keeps true.
\<close>

partial_function (option) dijkstra_loop ::
  "string \<Rightarrow> dijkstra_state \<Rightarrow> (exn + dijkstra_state) option" where
  "dijkstra_loop endUser st =
     (if dj_pq st \<noteq> [] then
        (let d = fst (pq_top (dj_pq st));
             u = snd (pq_top (dj_pq st));
             (du, dist1) = index_default 0 (dj_dist st) u;
             st1 = st\<lparr>dj_pq := pq_pop (dj_pq st), dj_dist := dist1\<rparr>
         in if d > du then dijkstra_loop endUser st1
            else if u = endUser then
              Some (Inr (st1\<lparr>dj_found := True, dj_finalDistance := du\<rparr>))
            else
              (case fmlookup (dj_adj st1) u of
                 None \<Rightarrow> Some (Inl OutOfRange)
               | Some friends \<Rightarrow>
                   dijkstra_loop endUser (dijkstra_relax u (sorted_list_of_fset friends) st1)))
      else Some (Inr st))"

text \<open>
  Path reconstruction: \<^verbatim>\<open>while (!current.empty()) { path.push_front(current);
  if (parent.find(current) == parent.end() || parent[current].empty()) break;
  current = parent[current]; }\<close>. The key is present whenever \<open>parent[current]\<close> is read.
\<close>

partial_function (option) dijkstra_path ::
  "(string, string) fmap \<Rightarrow> string \<Rightarrow> string list \<Rightarrow> string list option" where
  "dijkstra_path parent current path =
     (if current \<noteq> [] then
        (case fmlookup parent current of
           None \<Rightarrow> Some (current # path)
         | Some next \<Rightarrow>
             if next = [] then Some (current # path)
             else dijkstra_path parent next (current # path))
      else Some path)"

declare dijkstra_loop.simps [code]
declare dijkstra_path.simps [code]

definition dijkstra_start :: "graph \<Rightarrow> string \<Rightarrow> dijkstra_state" where
  "dijkstra_start adj startUser =
     (let st0 = dijkstra_init (sorted_list_of_fset (fmdom adj))
                  \<lparr>dj_adj = adj, dj_pq = [], dj_parent = fmempty, dj_dist = fmempty,
                   dj_found = False, dj_finalDistance = - 1\<rparr>
      in st0\<lparr>dj_dist := fmupd startUser 0 (dj_dist st0),
             dj_pq := pq_push (0, startUser) (dj_pq st0)\<rparr>)"

definition shortestPathDijkstra ::
  "graph \<Rightarrow> string \<Rightarrow> string \<Rightarrow> (exn + (int \<times> string list) \<times> message option \<times> graph) option" where
  "shortestPathDijkstra adj startUser endUser =
     (if fmlookup adj startUser = None then
        Some (Inr ((- 1, []), Some (StartUserNotFound Dijkstra startUser), adj))
      else if fmlookup adj endUser = None then
        Some (Inr ((- 1, []), Some (EndUserNotFound Dijkstra endUser), adj))
      else if startUser = endUser then
        Some (Inr ((0, [startUser]), None, adj))
      else
        (case dijkstra_loop endUser (dijkstra_start adj startUser) of
           None \<Rightarrow> None
         | Some (Inl e) \<Rightarrow> Some (Inl e)
         | Some (Inr st) \<Rightarrow>
             if dj_found st then
               (case dijkstra_path (dj_parent st) endUser [] of
                  None \<Rightarrow> None
                | Some path \<Rightarrow> Some (Inr ((dj_finalDistance st, path), None, dj_adj st)))
             else
               Some (Inr ((dj_finalDistance st, []),
                          Some (NoPathFound Dijkstra startUser endUser), dj_adj st))))"

subsection \<open>The network built by \<^verbatim>\<open>main\<close>\<close>

definition sample_calls :: "call list" where
  "sample_calls =
     [AddUser ''Alice'', AddUser ''Bob'', AddUser ''Charlie'', AddUser ''David'',
      AddUser ''Eve'', AddUser ''Frank'', AddUser ''Grace'', AddUser ''Heidi'',
      AddFriendship ''Alice'' ''Bob'', AddFriendship ''Alice'' ''Charlie'',
      AddFriendship ''Bob'' ''David'', AddFriendship ''Charlie'' ''David'',
      AddFriendship ''Charlie'' ''Eve'', AddFriendship ''David'' ''Eve'',
      AddFriendship ''Eve'' ''Frank'', AddFriendship ''Frank'' ''Heidi'']"

subsection \<open>Paths in the graph\<close>

text \<open>
  A path is a non-empty list of labels in which every label is followed by one of its
  friends; it has one edge less than it has labels.
\<close>

fun is_path :: "graph \<Rightarrow> string list \<Rightarrow> bool" where
  "is_path adj [] = False"
| "is_path adj [u] = True"
| "is_path adj (u # v # rest) = (v |\<in>| neighbors adj u \<and> is_path adj (v # rest))"

definition path_between :: "graph \<Rightarrow> string \<Rightarrow> string \<Rightarrow> string list \<Rightarrow> bool" where
  "path_between adj s e p \<longleftrightarrow> is_path adj p \<and> hd p = s \<and> last p = e"

definition connected :: "graph \<Rightarrow> string \<Rightarrow> string \<Rightarrow> bool" where
  "connected adj s e \<longleftrightarrow> (\<exists>p. path_between adj s e p)"

text \<open>\<open>n\<close> is the least number of edges of a path from \<open>s\<close> to \<open>e\<close>.\<close>

definition min_edges :: "graph \<Rightarrow> string \<Rightarrow> string \<Rightarrow> nat \<Rightarrow> bool" where
  "min_edges adj s e n \<longleftrightarrow>
     (\<exists>p. path_between adj s e p \<and> length p = Suc n) \<and>
     (\<forall>p. path_between adj s e p \<longrightarrow> Suc n \<le> length p)"

text \<open>The two structural invariants of the adjacency mapping, and the absence of self-loops.\<close>

definition symmetric :: "graph \<Rightarrow> bool" where
  "symmetric adj \<longleftrightarrow> (\<forall>u |\<in>| fmdom adj. \<forall>v |\<in>| neighbors adj u. u |\<in>| neighbors adj v)"

definition closed :: "graph \<Rightarrow> bool" where
  "closed adj \<longleftrightarrow> (\<forall>u |\<in>| fmdom adj. \<forall>v |\<in>| neighbors adj u. v |\<in>| fmdom adj)"

definition no_self_loop :: "graph \<Rightarrow> bool" where
  "no_self_loop adj \<longleftrightarrow> (\<forall>u |\<in>| fmdom adj. u |\<notin>| neighbors adj u)"

subsection \<open>Walks and the invariants of the breadth-first search\<close>

text \<open>
  The searches only follow an edge to a label that has an entry in \<open>adj\<close> (the test
  \<^verbatim>\<open>dist.count\<close>). \<open>walk adj s n v\<close>: \<open>v\<close> is reached from \<open>s\<close> along \<open>n\<close> such edges.
\<close>

definition edge :: "graph \<Rightarrow> string \<Rightarrow> string \<Rightarrow> bool" where
  "edge adj u v \<longleftrightarrow> v |\<in>| neighbors adj u \<and> v |\<in>| fmdom adj"

inductive walk :: "graph \<Rightarrow> string \<Rightarrow> nat \<Rightarrow> string \<Rightarrow> bool" for adj s where
  walk_start: "walk adj s 0 s"
| walk_step: "walk adj s n u \<Longrightarrow> edge adj u v \<Longrightarrow> walk adj s (Suc n) v"

definition shortest :: "graph \<Rightarrow> string \<Rightarrow> string \<Rightarrow> nat \<Rightarrow> bool" where
  "shortest adj s v n \<longleftrightarrow> walk adj s n v \<and> (\<forall>m. walk adj s m v \<longrightarrow> n \<le> m)"

definition visited :: "bfs_state \<Rightarrow> string \<Rightarrow> bool" where
  "visited st v \<longleftrightarrow> (\<exists>d. fmlookup (bfs_dist st) v = Some d \<and> 0 \<le> d)"

definition parent_chain :: "(string, string) fmap \<Rightarrow> (string, int) fmap \<Rightarrow> int \<Rightarrow> bool" where
  "parent_chain parent dist unseen \<longleftrightarrow>
     (\<forall>v d. fmlookup dist v = Some d \<and> 0 < d \<and> d \<noteq> unseen \<longrightarrow>
        (\<exists>p. fmlookup parent v = Some p \<and> fmlookup dist p = Some (d - 1))) \<and>
     (\<forall>v. fmlookup dist v = Some 0 \<longrightarrow> fmlookup parent v = Some [])"

definition bfs_mid :: "graph \<Rightarrow> string \<Rightarrow> string \<Rightarrow> string \<Rightarrow> nat \<Rightarrow> bfs_state \<Rightarrow> bool" where
  "bfs_mid adj s e u k st \<longleftrightarrow>
     bfs_adj st = adj \<and> fmdom (bfs_dist st) = fmdom adj \<and>
     \<not> bfs_found st \<and> bfs_distance st = - 1 \<and>
     (\<forall>v d. fmlookup (bfs_dist st) v = Some d \<longrightarrow>
        d = - 1 \<or> (0 \<le> d \<and> d \<le> int k + 1 \<and> shortest adj s v (nat d))) \<and>
     fmlookup (bfs_dist st) u = Some (int k) \<and>
     (\<forall>v \<in> set (bfs_q st). \<exists>d. fmlookup (bfs_dist st) v = Some d \<and> int k \<le> d) \<and>
     sorted (map (\<lambda>v. the (fmlookup (bfs_dist st) v)) (bfs_q st)) \<and>
     (\<forall>w. visited st w \<and> w \<notin> set (bfs_q st) \<and> w \<noteq> u \<longrightarrow>
        (\<forall>v. edge adj w v \<longrightarrow> visited st v)) \<and>
     (\<forall>v m. walk adj s m v \<and> m \<le> k \<longrightarrow> visited st v) \<and>
     fmlookup (bfs_dist st) e = Some (- 1) \<and>
     parent_chain (bfs_parent st) (bfs_dist st) (- 1)"

definition bfs_post :: "graph \<Rightarrow> string \<Rightarrow> string \<Rightarrow> bfs_state \<Rightarrow> bool" where
  "bfs_post adj s e st \<longleftrightarrow>
     bfs_adj st = adj \<and> bfs_found st \<and>
     (\<exists>n. bfs_distance st = int32 (int n) \<and> shortest adj s e n) \<and>
     (\<exists>p. bfs_path (bfs_parent st) e [] = Some p)"

definition bfs_done :: "graph \<Rightarrow> string \<Rightarrow> string \<Rightarrow> bfs_state \<Rightarrow> bool" where
  "bfs_done adj s e st \<longleftrightarrow>
     bfs_adj st = adj \<and> \<not> bfs_found st \<and> bfs_distance st = - 1 \<and>
     fmlookup (bfs_dist st) e = Some (- 1) \<and> visited st s \<and>
     (\<forall>w. visited st w \<longrightarrow> (\<forall>v. edge adj w v \<longrightarrow> visited st v))"

definition bfs_inv :: "graph \<Rightarrow> string \<Rightarrow> string \<Rightarrow> bfs_state \<Rightarrow> bool" where
  "bfs_inv adj s e st \<longleftrightarrow>
     (case bfs_q st of
        [] \<Rightarrow> bfs_done adj s e st
      | u # rest \<Rightarrow> \<exists>k. bfs_mid adj s e u k (st\<lparr>bfs_q := rest\<rparr>))"

definition unseen :: "bfs_state \<Rightarrow> nat" where
  "unseen st = card {v. fmlookup (bfs_dist st) v = Some (- 1)}"

definition bfs_measure :: "bfs_state \<Rightarrow> nat" where
  "bfs_measure st = 2 * unseen st + length (bfs_q st)"

text \<open>
  The distances that the search records before it discovers \<open>e\<close> fit the type \<^verbatim>\<open>int\<close>:
  every user other than \<open>e\<close> that is not farther from \<open>s\<close> than \<open>e\<close> is at a distance of at
  most \<open>INT_MAX\<close>.
\<close>

definition levels_fit :: "graph \<Rightarrow> string \<Rightarrow> string \<Rightarrow> bool" where
  "levels_fit adj s e \<longleftrightarrow>
     (\<forall>v n. v \<noteq> e \<and> shortest adj s v n \<and> (\<forall>m. walk adj s m e \<longrightarrow> n \<le> m) \<longrightarrow> int n \<le> INT_MAX)"

text \<open>
  What the loop keeps true in every graph, whatever the distances: the queue holds users
  that a walk reaches from \<open>s\<close>, and \<open>found\<close> is set only when such a walk reaches \<open>e\<close>. A
  user whose recorded distance is \<open>-2\<close> gives its undiscovered neighbours the distance
  \<open>-1\<close>, which leaves them undiscovered; \<open>pending\<close> counts the queue entries of such
  users.
\<close>

definition bfs_coarse :: "graph \<Rightarrow> string \<Rightarrow> string \<Rightarrow> bfs_state \<Rightarrow> bool" where
  "bfs_coarse adj s e st \<longleftrightarrow>
     bfs_adj st = adj \<and> fmdom (bfs_dist st) = fmdom adj \<and>
     (\<forall>v \<in> set (bfs_q st). v |\<in>| fmdom adj \<and> (\<exists>n. walk adj s n v)) \<and>
     (bfs_found st \<longrightarrow> (\<exists>n. walk adj s n e)) \<and>
     (\<not> bfs_found st \<longrightarrow> bfs_distance st = - 1)"

definition turns :: "(string, int) fmap \<Rightarrow> string \<Rightarrow> bool" where
  "turns dist v \<longleftrightarrow> (\<exists>d. fmlookup dist v = Some d \<and> int32 (d + 1) = - 1)"

definition pending :: "bfs_state \<Rightarrow> nat" where
  "pending st = length (filter (turns (bfs_dist st)) (bfs_q st))"

definition bfs_order :: "(bfs_state \<times> bfs_state) set" where
  "bfs_order =
     inv_image (less_than <*lex*> less_than <*lex*> less_than)
       (\<lambda>st. (unseen st, pending st, length (bfs_q st)))"

subsection \<open>The invariants of Dijkstra's algorithm\<close>

definition reached :: "dijkstra_state \<Rightarrow> string \<Rightarrow> bool" where
  "reached st v \<longleftrightarrow> (\<exists>d. fmlookup (dj_dist st) v = Some d \<and> d \<noteq> INF_int)"

definition dj_mid :: "graph \<Rightarrow> string \<Rightarrow> string \<Rightarrow> string \<Rightarrow> nat \<Rightarrow> dijkstra_state \<Rightarrow> bool" where
  "dj_mid adj s e u k st \<longleftrightarrow>
     dj_adj st = adj \<and> fmdom (dj_dist st) = fmdom adj \<and>
     \<not> dj_found st \<and> dj_finalDistance st = - 1 \<and> int k < INF_int \<and>
     (\<forall>v d. fmlookup (dj_dist st) v = Some d \<longrightarrow>
        d = INF_int \<or> (0 \<le> d \<and> d \<le> int k + 1 \<and> d < INF_int \<and> shortest adj s v (nat d))) \<and>
     fmlookup (dj_dist st) u = Some (int k) \<and>
     (\<forall>x \<in> set (dj_pq st).
        fmlookup (dj_dist st) (snd x) = Some (fst x) \<and> int k \<le> fst x \<and> fst x < INF_int) \<and>
     distinct (dj_pq st) \<and>
     (\<forall>w dw. fmlookup (dj_dist st) w = Some dw \<and> dw + 1 < INF_int \<and>
        (dw, w) \<notin> set (dj_pq st) \<and> w \<noteq> u \<longrightarrow> (\<forall>v. edge adj w v \<longrightarrow> reached st v)) \<and>
     (\<forall>v m. walk adj s m v \<and> m \<le> k \<longrightarrow> reached st v) \<and>
     (\<forall>d. fmlookup (dj_dist st) e = Some d \<and> d \<noteq> INF_int \<longrightarrow> (d, e) \<in> set (dj_pq st) \<or> e = u) \<and>
     parent_chain (dj_parent st) (dj_dist st) INF_int"

definition dj_post :: "graph \<Rightarrow> string \<Rightarrow> string \<Rightarrow> dijkstra_state \<Rightarrow> bool" where
  "dj_post adj s e st \<longleftrightarrow>
     dj_adj st = adj \<and> dj_found st \<and>
     (\<exists>n. dj_finalDistance st = int n \<and> shortest adj s e n \<and>
          fmlookup (dj_dist st) e = Some (int n) \<and> int n < INF_int) \<and>
     (\<forall>v d. fmlookup (dj_dist st) v = Some d \<longrightarrow> d \<le> INF_int) \<and>
     parent_chain (dj_parent st) (dj_dist st) INF_int"

definition dj_done :: "graph \<Rightarrow> string \<Rightarrow> string \<Rightarrow> dijkstra_state \<Rightarrow> bool" where
  "dj_done adj s e st \<longleftrightarrow>
     dj_adj st = adj \<and> \<not> dj_found st \<and> dj_finalDistance st = - 1 \<and>
     \<not> reached st e \<and> reached st s \<and>
     (\<forall>v d. fmlookup (dj_dist st) v = Some d \<and> d \<noteq> INF_int \<longrightarrow>
        0 \<le> d \<and> shortest adj s v (nat d)) \<and>
     (\<forall>w dw. fmlookup (dj_dist st) w = Some dw \<and> dw + 1 < INF_int \<longrightarrow>
        (\<forall>v. edge adj w v \<longrightarrow> reached st v))"

definition dj_inv :: "graph \<Rightarrow> string \<Rightarrow> string \<Rightarrow> dijkstra_state \<Rightarrow> bool" where
  "dj_inv adj s e st \<longleftrightarrow>
     (if dj_pq st = [] then dj_done adj s e st
      else \<exists>k. fst (pq_top (dj_pq st)) = int k \<and>
             dj_mid adj s e (snd (pq_top (dj_pq st))) k (st\<lparr>dj_pq := pq_pop (dj_pq st)\<rparr>))"

definition dj_measure :: "dijkstra_state \<Rightarrow> nat" where
  "dj_measure st = 2 * card {v. fmlookup (dj_dist st) v = Some INF_int} + length (dj_pq st)"

subsection \<open>The score of a friend suggestion\<close>

text \<open>
  \<open>fof_score\<close> is the score as the specification words it: the number of direct friends of
  the label through which the candidate is reached. \<open>count_of\<close> and \<open>candidate\<close> describe
  the map \<open>suggestionCounts\<close> while the loops run.
\<close>

definition count_of :: "(string, int) fmap \<Rightarrow> string \<Rightarrow> int" where
  "count_of m c = (case fmlookup m c of None \<Rightarrow> 0 | Some n \<Rightarrow> n)"

definition candidate :: "graph \<Rightarrow> string \<Rightarrow> string fset \<Rightarrow> string \<Rightarrow> bool" where
  "candidate adj userName directFriends c \<longleftrightarrow>
     c \<noteq> userName \<and> c |\<notin>| directFriends \<and> c |\<in>| fmdom adj"

definition fof_score :: "graph \<Rightarrow> string \<Rightarrow> string \<Rightarrow> int" where
  "fof_score adj label c =
     int (fcard (ffilter (\<lambda>f. c |\<in>| neighbors adj f) (neighbors adj label)))"

subsection \<open>A chain of users\<close>

text \<open>
  \<open>chain_calls n\<close> adds \<open>n\<close> users with distinct labels (binary numerals, lowest digit
  first, ended by \<open>u\<close>) and makes each a friend of the next.
\<close>

fun label_of :: "nat \<Rightarrow> string" where
  "label_of n =
     (if n = 0 then ''u''
      else (if even n then CHR ''0'' else CHR ''1'') # label_of (n div 2))"

definition chain_calls :: "nat \<Rightarrow> call list" where
  "chain_calls n =
     map (\<lambda>i. AddUser (label_of i)) [0..<n] @
     map (\<lambda>i. AddFriendship (label_of i) (label_of (Suc i))) [0..<n - 1]"

definition chain_links :: "nat \<Rightarrow> call list" where
  "chain_links m = map (\<lambda>i. AddFriendship (label_of i) (label_of (Suc i))) [0..<m]"

subsection \<open>A user with many friends\<close>

text \<open>
  \<open>star_calls n\<close> adds the users \<open>hub\<close> and \<open>far\<close> and \<open>n\<close> more users, and makes each of
  the \<open>n\<close> a friend of both, so that \<open>hub\<close> and \<open>far\<close> have \<open>n\<close> friends in common.
\<close>

definition star_calls :: "nat \<Rightarrow> call list" where
  "star_calls n =
     [AddUser ''hub'', AddUser ''far''] @
     map (\<lambda>i. AddUser (label_of i)) [0..<n] @
     map (\<lambda>i. AddFriendship ''hub'' (label_of i)) [0..<n] @
     map (\<lambda>i. AddFriendship (label_of i) ''far'') [0..<n]"

section \<open>Properties\<close>

subsection \<open>Mutation and the reachable states\<close>

lemma index_default_Some: "fmlookup m k = Some v \<Longrightarrow> index_default d m k = (v, m)"
  by (simp add: index_default_def)

lemma index_default_None: "fmlookup m k = None \<Longrightarrow> index_default d m k = (d, fmupd k d m)"
  by (simp add: index_default_def)

lemma neighbors_lookup:
  "neighbors adj u = (case fmlookup adj u of None \<Rightarrow> {||} | Some s \<Rightarrow> s)"
  by (simp add: neighbors_def getFriends_def split: option.splits)

lemma neighbors_Some [simp]: "fmlookup adj u = Some s \<Longrightarrow> neighbors adj u = s"
  by (simp add: neighbors_lookup)

lemma neighbors_None [simp]: "fmlookup adj u = None \<Longrightarrow> neighbors adj u = {||}"
  by (simp add: neighbors_lookup)

lemma addUser_absent:
  "fmlookup adj u = None \<Longrightarrow> addUser adj u = (Some (UserAdded u), fmupd u {||} adj)"
  by (simp add: addUser_def index_default_None fmap_ext)

lemma addUser_present: "fmlookup adj u \<noteq> None \<Longrightarrow> addUser adj u = (None, adj)"
  by (auto simp add: addUser_def)

lemma insert_friend_present:
  "fmlookup adj u = Some s \<Longrightarrow> insert_friend adj u v = fmupd u (finsert v s) adj"
  by (simp add: insert_friend_def index_default_Some)

lemma addFriendship_present:
  assumes "fmlookup adj a = Some sa" "fmlookup adj b = Some sb"
  shows "addFriendship adj a b =
    (Some (FriendshipAdded a b),
     fmupd b (finsert a (if a = b then finsert b sa else sb)) (fmupd a (finsert b sa) adj))"
  using assms by (simp add: addFriendship_def insert_friend_present)

lemma addFriendship_absent:
  "fmlookup adj a = None \<or> fmlookup adj b = None \<Longrightarrow> addFriendship adj a b = (Some UsersDoNotExist, adj)"
  by (auto simp add: addFriendship_def)

lemma fmdom_addUser: "fmdom (snd (addUser adj u)) = finsert u (fmdom adj)"
  by (cases "fmlookup adj u") (auto simp: addUser_absent addUser_present fmdomI)

lemma fmdom_addFriendship: "fmdom (snd (addFriendship adj a b)) = fmdom adj"
proof (cases "fmlookup adj a = None \<or> fmlookup adj b = None")
  case True
  then show ?thesis by (simp add: addFriendship_absent)
next
  case False
  then obtain sa sb where "fmlookup adj a = Some sa" "fmlookup adj b = Some sb" by auto
  then show ?thesis by (auto simp: addFriendship_present dest: fmdomI)
qed

lemma neighbors_addUser: "neighbors (snd (addUser adj u)) v = neighbors adj v"
  by (cases "fmlookup adj u") (auto simp: addUser_absent addUser_present neighbors_lookup)

lemma neighbors_addFriendship:
  "neighbors (snd (addFriendship adj a b)) u =
     (if fmlookup adj a \<noteq> None \<and> fmlookup adj b \<noteq> None then
        (if u = a \<and> u = b then finsert a (neighbors adj u)
         else if u = a then finsert b (neighbors adj u)
         else if u = b then finsert a (neighbors adj u)
         else neighbors adj u)
      else neighbors adj u)"
proof (cases "fmlookup adj a = None \<or> fmlookup adj b = None")
  case True
  then show ?thesis by (auto simp add: addFriendship_absent)
next
  case False
  then obtain sa sb where "fmlookup adj a = Some sa" "fmlookup adj b = Some sb" by auto
  then show ?thesis by (auto simp: addFriendship_present neighbors_lookup)
qed

lemma run_snoc: "run (calls @ [c]) = perform (run calls) c"
  by (simp add: run_def)

lemma run_Nil: "run [] = fmempty"
  by (simp add: run_def)

lemma reachable_run: "reachable (run calls)"
  by (auto simp: reachable_def)

lemma reachable_induct [consumes 1, case_names empty addUser addFriendship]:
  assumes "reachable adj"
    and "P fmempty"
    and "\<And>adj u. reachable adj \<Longrightarrow> P adj \<Longrightarrow> P (snd (addUser adj u))"
    and "\<And>adj a b. reachable adj \<Longrightarrow> P adj \<Longrightarrow> P (snd (addFriendship adj a b))"
  shows "P adj"
proof -
  have "P (run calls)" for calls
  proof (induction calls rule: rev_induct)
    case Nil
    then show ?case by (simp add: run_Nil assms(2))
  next
    case (snoc c calls)
    then show ?case
      by (cases c) (simp_all add: run_snoc assms(3,4) reachable_run)
  qed
  with assms(1) show ?thesis by (auto simp: reachable_def)
qed

lemma neighbors_absent: "u |\<notin>| fmdom adj \<Longrightarrow> neighbors adj u = {||}"
  by (simp add: neighbors_lookup fmdom_notD)

lemma symmetric_iff: "symmetric adj \<longleftrightarrow> (\<forall>u v. v |\<in>| neighbors adj u \<longrightarrow> u |\<in>| neighbors adj v)"
  unfolding symmetric_def using neighbors_absent by fastforce

lemma closed_iff: "closed adj \<longleftrightarrow> (\<forall>u v. v |\<in>| neighbors adj u \<longrightarrow> v |\<in>| fmdom adj)"
  unfolding closed_def using neighbors_absent by fastforce

lemma no_self_loop_iff: "no_self_loop adj \<longleftrightarrow> (\<forall>u. u |\<notin>| neighbors adj u)"
  unfolding no_self_loop_def using neighbors_absent by fastforce

lemma symmetric_addUser: "symmetric adj \<Longrightarrow> symmetric (snd (addUser adj u))"
  by (simp add: symmetric_iff neighbors_addUser)

lemma closed_addUser: "closed adj \<Longrightarrow> closed (snd (addUser adj u))"
  by (simp add: closed_iff neighbors_addUser fmdom_addUser)

lemma symmetric_addFriendship: "symmetric adj \<Longrightarrow> symmetric (snd (addFriendship adj a b))"
  by (auto simp add: symmetric_iff neighbors_addFriendship split: if_splits)

lemma closed_addFriendship: "closed adj \<Longrightarrow> closed (snd (addFriendship adj a b))"
  by (auto simp add: closed_iff neighbors_addFriendship fmdom_addFriendship fmlookup_dom_iff split: if_splits)

lemma reachable_symmetric: "reachable adj \<Longrightarrow> symmetric adj"
  by (induction rule: reachable_induct) (simp add: symmetric_def, erule symmetric_addUser, erule symmetric_addFriendship)

lemma reachable_closed: "reachable adj \<Longrightarrow> closed adj"
  by (induction rule: reachable_induct) (simp add: closed_def, erule closed_addUser, erule closed_addFriendship)

lemma self_loop_only_by_self_friendship:
  "u |\<in>| neighbors (run calls) u \<Longrightarrow> AddFriendship u u \<in> set calls"
proof (induction calls rule: rev_induct)
  case Nil
  then show ?case by (simp add: run_Nil)
next
  case (snoc c calls)
  then show ?case
    by (cases c) (auto simp: run_snoc neighbors_addUser neighbors_addFriendship split: if_splits)
qed

subsection \<open>Mutual friends\<close>

lemma set_intersection_set:
  "sorted xs \<Longrightarrow> sorted ys \<Longrightarrow> set (set_intersection xs ys) = set xs \<inter> set ys"
proof (induction xs ys rule: set_intersection.induct)
  case (3 x xs y ys)
  show ?case
  proof (cases "x < y")
    case True
    with 3 have "set (set_intersection xs (y # ys)) = set xs \<inter> set (y # ys)" by simp
    moreover have "x \<notin> set (y # ys)" using True 3(5) by auto
    ultimately show ?thesis using True by auto
  next
    case False
    show ?thesis
    proof (cases "y < x")
      case True
      with 3 False have "set (set_intersection (x # xs) ys) = set (x # xs) \<inter> set ys" by simp
      moreover have "y \<notin> set (x # xs)" using True 3(4) by auto
      ultimately show ?thesis using True False by auto
    next
      case F2: False
      with False have "x = y" by simp
      moreover from 3 False F2 have "set (set_intersection xs ys) = set xs \<inter> set ys" by simp
      moreover have "x \<notin> set xs \<or> x \<in> set ys \<or> True" by simp
      ultimately show ?thesis using False 3(4,5) by auto
    qed
  qed
qed simp_all

lemma getMutualFriends_present:
  assumes "fmlookup adj a = Some sa" "fmlookup adj b = Some sb"
  shows "getMutualFriends adj a b = (sa |\<inter>| sb, None, adj)"
proof -
  have "fset (fset_of_list (set_intersection (sorted_list_of_fset sa) (sorted_list_of_fset sb)))
        = fset (sa |\<inter>| sb)"
    by (simp add: fset_of_list.rep_eq set_intersection_set sorted_list_of_fset.rep_eq)
  then have "fset_of_list (set_intersection (sorted_list_of_fset sa) (sorted_list_of_fset sb)) = sa |\<inter>| sb"
    by (simp only: fset_inject)
  with assms show ?thesis by (simp add: getMutualFriends_def)
qed

lemma getMutualFriends_neighbors:
  assumes "a |\<in>| fmdom adj" "b |\<in>| fmdom adj"
  shows "getMutualFriends adj a b = (neighbors adj a |\<inter>| neighbors adj b, None, adj)"
proof -
  from assms obtain sa sb where "fmlookup adj a = Some sa" "fmlookup adj b = Some sb"
    by (auto simp: fmlookup_dom_iff)
  then show ?thesis by (simp add: getMutualFriends_present)
qed

subsection \<open>Walks\<close>

lemma walk_0_iff [simp]: "walk adj s 0 v \<longleftrightarrow> v = s"
  using walk.simps[of adj s 0 v] by auto

lemma walk_Suc_iff: "walk adj s (Suc n) v \<longleftrightarrow> (\<exists>u. walk adj s n u \<and> edge adj u v)"
  using walk.simps[of adj s "Suc n" v] by auto

lemma shortest_start: "shortest adj s s 0"
  by (simp add: shortest_def)

lemma shortest_unique: "shortest adj s v n \<Longrightarrow> shortest adj s v m \<Longrightarrow> n = m"
  by (simp add: shortest_def order_antisym)

lemma shortest_step:
  assumes "shortest adj s u k" "edge adj u v" "\<forall>m. walk adj s m v \<longrightarrow> k < m"
  shows "shortest adj s v (Suc k)"
proof -
  from assms(1,2) have "walk adj s (Suc k) v" by (auto simp: shortest_def intro: walk_step)
  moreover have "Suc k \<le> m" if "walk adj s m v" for m using assms(3) that by (simp add: Suc_le_eq)
  ultimately show ?thesis by (simp add: shortest_def)
qed

lemma walk_exists_shortest:
  assumes "walk adj s n e"
  shows "\<exists>m. shortest adj s e m"
proof -
  have "walk adj s (LEAST m. walk adj s m e) e" using assms by (rule LeastI)
  moreover have "(LEAST m. walk adj s m e) \<le> m" if "walk adj s m e" for m
    using that by (rule Least_le)
  ultimately show ?thesis unfolding shortest_def by blast
qed

subsection \<open>The 32-bit integer\<close>

lemma int32_id: "- 2147483648 \<le> x \<Longrightarrow> x \<le> INT_MAX \<Longrightarrow> int32 x = x"
  by (simp add: int32_def INT_MAX_def)

lemma int32_Suc: "int n < INT_MAX \<Longrightarrow> int32 (int n + 1) = int n + 1"
  by (simp add: int32_def INT_MAX_def)

lemma int32_nat: "int n \<le> INT_MAX \<Longrightarrow> int32 (int n) = int n"
  by (simp add: int32_def INT_MAX_def)

lemma int32_0 [simp]: "int32 0 = 0"
  by (simp add: int32_def)

lemma int32_add_1: "int32 (int32 x + 1) = int32 (x + 1)"
proof -
  have "(int32 x + 1 + 2147483648) mod 4294967296 = ((x + 2147483648) mod 4294967296 + 1) mod 4294967296"
    by (simp add: int32_def add.commute)
  also have "\<dots> = (x + 2147483648 + 1) mod 4294967296"
    by (rule mod_add_left_eq)
  finally show ?thesis by (simp add: int32_def add.commute add.left_commute)
qed

subsection \<open>Breadth-first search: the loop over the neighbours\<close>

text \<open>
  This and the next two subsections follow the search while no recorded distance has left
  the range of \<^verbatim>\<open>int\<close> (\<open>levels_fit\<close>). While the neighbours of \<open>u\<close> are visited,
  \<open>bfs_mid\<close> holds: every distance recorded is the length of a shortest walk, the queue is
  ordered by distance and spans at most two levels, every user settled before \<open>u\<close> has all
  its neighbours discovered, and every user within the distance of \<open>u\<close> is discovered. The
  distance of \<open>endUser\<close> is recorded last and reduced to 32 bits.
\<close>

lemma finite_unseen: "finite {v. fmlookup m v = Some (d::int)}"
proof -
  have "{v. fmlookup m v = Some d} \<subseteq> fmdom' m" by (auto intro: fmdom'I)
  then show ?thesis by (rule finite_subset) simp
qed

lemma unseen_discover:
  assumes "fmlookup (bfs_dist st) nb = Some (- 1)" "d \<noteq> - 1"
  shows "Suc (unseen (st\<lparr>bfs_q := q', bfs_parent := p', bfs_dist := fmupd nb d (bfs_dist st)\<rparr>)) = unseen st"
proof -
  have "{v. fmlookup (fmupd nb d (bfs_dist st)) v = Some (- 1)} = {v. fmlookup (bfs_dist st) v = Some (- 1)} - {nb}"
    using assms by auto
  moreover have "nb \<in> {v. fmlookup (bfs_dist st) v = Some (- 1)}" using assms by simp
  ultimately show ?thesis
    unfolding unseen_def using card.remove[OF finite_unseen[of "bfs_dist st" "- 1"], of nb]
    by simp
qed

lemma visited_upd:
  "visited (st\<lparr>bfs_q := q', bfs_parent := p', bfs_dist := fmupd nb d (bfs_dist st)\<rparr>) v
     \<longleftrightarrow> (if v = nb then 0 \<le> d else visited st v)"
  by (simp add: visited_def)

lemma visited_q_upd [simp]: "visited (st\<lparr>bfs_q := q'\<rparr>) v = visited st v"
  by (simp add: visited_def)

lemma bfs_mid_discover:
  assumes mid: "bfs_mid adj s e u k st"
    and nb: "fmlookup (bfs_dist st) nb = Some (- 1)"
    and adjacent: "nb |\<in>| neighbors adj u"
    and ne: "nb \<noteq> e"
  defines "st1 \<equiv> st\<lparr>bfs_q := bfs_q st @ [nb], bfs_parent := fmupd nb u (bfs_parent st),
                       bfs_dist := fmupd nb (int k + 1) (bfs_dist st)\<rparr>"
  shows "bfs_mid adj s e u k st1"
proof -
  from mid have adj: "bfs_adj st = adj" and dom: "fmdom (bfs_dist st) = fmdom adj"
    and nf: "\<not> bfs_found st" and dm: "bfs_distance st = - 1"
    and vals: "\<And>v d. fmlookup (bfs_dist st) v = Some d \<Longrightarrow>
        d = - 1 \<or> (0 \<le> d \<and> d \<le> int k + 1 \<and> shortest adj s v (nat d))"
    and du: "fmlookup (bfs_dist st) u = Some (int k)"
    and qs: "\<And>v. v \<in> set (bfs_q st) \<Longrightarrow> \<exists>d. fmlookup (bfs_dist st) v = Some d \<and> int k \<le> d"
    and srt: "sorted (map (\<lambda>v. the (fmlookup (bfs_dist st) v)) (bfs_q st))"
    and proc: "\<And>w v. visited st w \<Longrightarrow> w \<notin> set (bfs_q st) \<Longrightarrow> w \<noteq> u \<Longrightarrow> edge adj w v \<Longrightarrow> visited st v"
    and near: "\<And>v m. walk adj s m v \<Longrightarrow> m \<le> k \<Longrightarrow> visited st v"
    and de: "fmlookup (bfs_dist st) e = Some (- 1)"
    and chain: "parent_chain (bfs_parent st) (bfs_dist st) (- 1)"
    unfolding bfs_mid_def by blast+
  have nbdom: "nb |\<in>| fmdom adj" using nb dom by (metis fmdomI)
  have edge: "edge adj u nb" using adjacent nbdom by (simp add: edge_def)
  have nbu: "nb \<noteq> u" using nb du by auto
  have nbq: "nb \<notin> set (bfs_q st)" using nb qs by fastforce
  have not_vis: "\<not> visited st nb" using nb by (simp add: visited_def)
  have su: "shortest adj s u k" using vals[OF du] by simp
  have far: "\<forall>m. walk adj s m nb \<longrightarrow> k < m"
    using near not_vis by (meson not_le)
  have snb: "shortest adj s nb (Suc k)" by (rule shortest_step[OF su edge far])
  have vis_mono: "visited st v \<Longrightarrow> visited st1 v" for v
    by (auto simp: st1_def visited_upd)
  have vis1: "visited st1 v \<longleftrightarrow> v = nb \<or> visited st v" for v
    using not_vis by (auto simp: st1_def visited_upd)
  have c1: "bfs_adj st1 = adj" "\<not> bfs_found st1" "bfs_distance st1 = - 1"
    using adj nf dm by (simp_all add: st1_def)
  have c2: "fmdom (bfs_dist st1) = fmdom adj"
    using dom nbdom by (auto simp: st1_def)
  have c3: "d = - 1 \<or> (0 \<le> d \<and> d \<le> int k + 1 \<and> shortest adj s v (nat d))"
    if "fmlookup (bfs_dist st1) v = Some d" for v d
  proof (cases "v = nb")
    case True
    with that have "d = int k + 1" by (simp add: st1_def)
    moreover have "nat (int k + 1) = Suc k" by simp
    ultimately show ?thesis using snb True by simp
  next
    case False
    with that have "fmlookup (bfs_dist st) v = Some d" by (simp add: st1_def)
    then show ?thesis by (rule vals)
  qed
  have c4: "fmlookup (bfs_dist st1) u = Some (int k)"
    using du nbu by (simp add: st1_def)
  have c5: "\<exists>d. fmlookup (bfs_dist st1) v = Some d \<and> int k \<le> d" if "v \<in> set (bfs_q st1)" for v
  proof (cases "v = nb")
    case True
    then show ?thesis by (simp add: st1_def)
  next
    case False
    with that have "v \<in> set (bfs_q st)" by (simp add: st1_def)
    from qs[OF this] False show ?thesis by (simp add: st1_def)
  qed
  have same: "map (\<lambda>v. the (fmlookup (bfs_dist st1) v)) (bfs_q st)
              = map (\<lambda>v. the (fmlookup (bfs_dist st) v)) (bfs_q st)"
    using nbq by (auto simp: st1_def)
  have le: "the (fmlookup (bfs_dist st) v) \<le> int k + 1" if "v \<in> set (bfs_q st)" for v
  proof -
    from qs[OF that] obtain d where d: "fmlookup (bfs_dist st) v = Some d" "int k \<le> d" by blast
    with vals[OF d(1)] show ?thesis by auto
  qed
  have c6: "sorted (map (\<lambda>v. the (fmlookup (bfs_dist st1) v)) (bfs_q st1))"
  proof -
    have "map (\<lambda>v. the (fmlookup (bfs_dist st1) v)) (bfs_q st1)
          = map (\<lambda>v. the (fmlookup (bfs_dist st) v)) (bfs_q st) @ [int k + 1]"
      using same by (simp add: st1_def)
    then show ?thesis using srt le by (auto simp: sorted_append)
  qed
  have c7: "visited st1 v" if "visited st1 w" "w \<notin> set (bfs_q st1)" "w \<noteq> u" "edge adj w v" for w v
  proof -
    from that(2) have "w \<noteq> nb" "w \<notin> set (bfs_q st)" by (auto simp: st1_def)
    with that(1) have "visited st w" by (simp add: vis1)
    from proc[OF this \<open>w \<notin> set (bfs_q st)\<close> that(3,4)] show ?thesis by (rule vis_mono)
  qed
  have c8: "visited st1 v" if "walk adj s m v" "m \<le> k" for v m
    using near[OF that] by (rule vis_mono)
  have c9: "fmlookup (bfs_dist st1) e = Some (- 1)"
    using de ne by (simp add: st1_def)
  have c10: "parent_chain (bfs_parent st1) (bfs_dist st1) (- 1)"
    unfolding parent_chain_def
  proof (intro conjI allI impI)
    fix v d assume a: "fmlookup (bfs_dist st1) v = Some d \<and> 0 < d \<and> d \<noteq> - 1"
    show "\<exists>p. fmlookup (bfs_parent st1) v = Some p \<and> fmlookup (bfs_dist st1) p = Some (d - 1)"
    proof (cases "v = nb")
      case True
      with a have "d = int k + 1" by (simp add: st1_def)
      then show ?thesis using True c4 by (simp add: st1_def)
    next
      case False
      with a have "fmlookup (bfs_dist st) v = Some d" "0 < d" "d \<noteq> - 1" by (simp_all add: st1_def)
      with chain obtain p where p: "fmlookup (bfs_parent st) v = Some p" "fmlookup (bfs_dist st) p = Some (d - 1)"
        unfolding parent_chain_def by blast
      have "p \<noteq> nb" using p(2) nb \<open>0 < d\<close> by auto
      with p False show ?thesis by (simp add: st1_def)
    qed
  next
    fix v assume a: "fmlookup (bfs_dist st1) v = Some 0"
    then have "v \<noteq> nb" by (auto simp: st1_def)
    with a have "fmlookup (bfs_dist st) v = Some 0" by (simp add: st1_def)
    with chain have "fmlookup (bfs_parent st) v = Some []" unfolding parent_chain_def by blast
    with \<open>v \<noteq> nb\<close> show "fmlookup (bfs_parent st1) v = Some []" by (simp add: st1_def)
  qed
  show ?thesis
    unfolding bfs_mid_def
    using c1 c2 c3 c4 c5 c6 c7 c8 c9 c10 by blast
qed

lemma parent_chain_discover:
  assumes chain: "parent_chain parent dist X"
    and nb: "fmlookup dist nb = Some X"
    and du: "fmlookup dist u = Some k" "0 \<le> k" "k + 1 \<noteq> X"
    and kX: "k \<noteq> X"
    and X: "X \<noteq> 0" "\<forall>v d. fmlookup dist v = Some d \<and> 0 < d \<longrightarrow> d \<noteq> X + 1"
  shows "parent_chain (fmupd nb u parent) (fmupd nb (k + 1) dist) X"
  unfolding parent_chain_def
proof (intro conjI allI impI)
  have nbu: "nb \<noteq> u" using nb du kX by auto
  fix v d assume a: "fmlookup (fmupd nb (k + 1) dist) v = Some d \<and> 0 < d \<and> d \<noteq> X"
  show "\<exists>p. fmlookup (fmupd nb u parent) v = Some p \<and> fmlookup (fmupd nb (k + 1) dist) p = Some (d - 1)"
  proof (cases "v = nb")
    case True
    with a have "d = k + 1" by simp
    then show ?thesis using True du(1) nbu by simp
  next
    case False
    with a have d: "fmlookup dist v = Some d" "0 < d" "d \<noteq> X" by simp_all
    with chain obtain p where p: "fmlookup parent v = Some p" "fmlookup dist p = Some (d - 1)"
      unfolding parent_chain_def by blast
    have "d \<noteq> X + 1" using X(2) d by blast
    then have "p \<noteq> nb" using p(2) nb by auto
    with p False show ?thesis by simp
  qed
next
  fix v assume a: "fmlookup (fmupd nb (k + 1) dist) v = Some 0"
  then have "v \<noteq> nb" using du(2) by auto
  with a have "fmlookup dist v = Some 0" by simp
  with chain have "fmlookup parent v = Some []" unfolding parent_chain_def by blast
  with \<open>v \<noteq> nb\<close> show "fmlookup (fmupd nb u parent) v = Some []" by simp
qed

lemma bfs_path_terminates:
  assumes "parent_chain parent dist (- 1)" "fmlookup dist c = Some d" "0 \<le> d"
  shows "\<exists>p. bfs_path parent c path = Some p"
  using assms(2,3)
proof (induction "nat d" arbitrary: c d path rule: less_induct)
  case less
  show ?case
  proof (cases "c = []")
    case True
    then show ?thesis by (subst bfs_path.simps) simp
  next
    case nonempty: False
    show ?thesis
    proof (cases "d = 0")
      case True
      with less.prems assms(1) have "fmlookup parent c = Some []"
        by (simp add: parent_chain_def)
      then have "bfs_path parent c path = bfs_path parent [] (c # path)"
        using nonempty by (subst bfs_path.simps) (simp add: index_default_Some)
      also have "\<dots> = Some (c # path)" by (subst bfs_path.simps) simp
      finally show ?thesis by simp
    next
      case False
      with less.prems have "0 < d" by simp
      with less.prems have "fmlookup dist c = Some d \<and> 0 < d \<and> d \<noteq> - 1" by simp
      with assms(1) obtain p where p: "fmlookup parent c = Some p"
          "fmlookup dist p = Some (d - 1)"
        unfolding parent_chain_def by blast
      have "bfs_path parent c path = bfs_path parent p (c # path)"
        using nonempty p(1) by (subst bfs_path.simps) (simp add: index_default_Some)
      moreover have "\<exists>q. bfs_path parent p (c # path) = Some q"
        using \<open>0 < d\<close> by (intro less.hyps[OF _ p(2)]) simp_all
      ultimately show ?thesis by simp
    qed
  qed
qed

lemma bfs_mid_level:
  assumes mid: "bfs_mid adj s e u k st"
    and nb: "fmlookup (bfs_dist st) nb = Some (- 1)"
    and adjacent: "nb |\<in>| neighbors adj u"
  shows "shortest adj s nb (Suc k)" and "\<forall>m. walk adj s m e \<longrightarrow> Suc k \<le> m"
proof -
  from mid have dom: "fmdom (bfs_dist st) = fmdom adj"
    and vals: "\<And>v d. fmlookup (bfs_dist st) v = Some d \<Longrightarrow>
        d = - 1 \<or> (0 \<le> d \<and> d \<le> int k + 1 \<and> shortest adj s v (nat d))"
    and du: "fmlookup (bfs_dist st) u = Some (int k)"
    and near: "\<And>v m. walk adj s m v \<Longrightarrow> m \<le> k \<Longrightarrow> visited st v"
    and de: "fmlookup (bfs_dist st) e = Some (- 1)"
    unfolding bfs_mid_def by blast+
  have nbdom: "nb |\<in>| fmdom adj" using nb dom by (metis fmdomI)
  have edge: "edge adj u nb" using adjacent nbdom by (simp add: edge_def)
  have su: "shortest adj s u k" using vals[OF du] by simp
  have "\<not> visited st nb" using nb by (simp add: visited_def)
  then have far: "\<forall>m. walk adj s m nb \<longrightarrow> k < m"
    using near by (meson not_le)
  show "shortest adj s nb (Suc k)" by (rule shortest_step[OF su edge far])
  have "\<not> visited st e" using de by (simp add: visited_def)
  then have "\<forall>m. walk adj s m e \<longrightarrow> k < m"
    using near by (meson not_le)
  then show "\<forall>m. walk adj s m e \<longrightarrow> Suc k \<le> m" by (simp add: Suc_le_eq)
qed

lemma bfs_mid_found:
  assumes mid: "bfs_mid adj s e u k st"
    and adjacent: "e |\<in>| neighbors adj u"
  shows "bfs_post adj s e
           (st\<lparr>bfs_q := bfs_q st @ [e], bfs_parent := fmupd e u (bfs_parent st),
               bfs_dist := fmupd e (int32 (int k + 1)) (bfs_dist st),
               bfs_found := True, bfs_distance := int32 (int k + 1)\<rparr>)"
proof -
  from mid have adj: "bfs_adj st = adj"
    and du: "fmlookup (bfs_dist st) u = Some (int k)"
    and de: "fmlookup (bfs_dist st) e = Some (- 1)"
    and chain: "parent_chain (bfs_parent st) (bfs_dist st) (- 1)"
    unfolding bfs_mid_def by blast+
  have se: "shortest adj s e (Suc k)" by (rule bfs_mid_level(1)[OF mid de adjacent])
  have pc: "parent_chain (fmupd e u (bfs_parent st)) (bfs_dist st) (- 1)"
    unfolding parent_chain_def
  proof (intro conjI allI impI)
    fix v d assume a: "fmlookup (bfs_dist st) v = Some d \<and> 0 < d \<and> d \<noteq> - 1"
    with de have "v \<noteq> e" by auto
    with a chain
    show "\<exists>p. fmlookup (fmupd e u (bfs_parent st)) v = Some p \<and> fmlookup (bfs_dist st) p = Some (d - 1)"
      unfolding parent_chain_def by simp
  next
    fix v assume a: "fmlookup (bfs_dist st) v = Some 0"
    with de have "v \<noteq> e" by auto
    with a chain show "fmlookup (fmupd e u (bfs_parent st)) v = Some []"
      unfolding parent_chain_def by simp
  qed
  have path: "\<exists>p. bfs_path (fmupd e u (bfs_parent st)) e [] = Some p"
  proof (cases "e = []")
    case True
    then show ?thesis by (subst bfs_path.simps) simp
  next
    case False
    have "bfs_path (fmupd e u (bfs_parent st)) e [] = bfs_path (fmupd e u (bfs_parent st)) u [e]"
      using False by (subst bfs_path.simps) (simp add: index_default_Some)
    with bfs_path_terminates[OF pc du, of "[e]"] show ?thesis by simp
  qed
  have "\<exists>n. int32 (int k + 1) = int32 (int n) \<and> shortest adj s e n"
    using se by (intro exI[of _ "Suc k"]) (simp add: add.commute)
  with path show ?thesis
    unfolding bfs_post_def using adj by simp
qed

lemma bfs_visit_keeps:
  "fmlookup (bfs_dist st) v = Some d \<Longrightarrow> d \<noteq> - 1 \<Longrightarrow>
   fmlookup (bfs_dist (bfs_visit u e ns st)) v = Some d"
proof (induction ns arbitrary: st)
  case Nil
  then show ?case by simp
next
  case (Cons nb ns)
  show ?case
  proof (cases "fmlookup (bfs_dist st) nb = Some (- 1)")
    case True
    then have "v \<noteq> nb" using Cons.prems by auto
    obtain dcur dist1 where ix: "index_default 0 (bfs_dist st) u = (dcur, dist1)" by force
    have d1: "fmlookup dist1 v = Some d"
      using ix Cons.prems(1) by (auto simp: index_default_def split: option.splits)
    show ?thesis
      using True ix d1 \<open>v \<noteq> nb\<close> Cons.prems(2)
      by (auto simp: Cons.IH Let_def)
  next
    case False
    then show ?thesis using Cons by simp
  qed
qed

lemma bfs_visit_inv:
  assumes "bfs_mid adj s e u k st" "\<forall>v \<in> set ns. v |\<in>| neighbors adj u"
    and fit: "levels_fit adj s e"
  shows "(bfs_found (bfs_visit u e ns st) \<longrightarrow> bfs_post adj s e (bfs_visit u e ns st)) \<and>
         (\<not> bfs_found (bfs_visit u e ns st) \<longrightarrow>
            bfs_mid adj s e u k (bfs_visit u e ns st) \<and>
            (\<forall>v \<in> set ns. v |\<in>| fmdom adj \<longrightarrow> visited (bfs_visit u e ns st) v) \<and>
            bfs_measure (bfs_visit u e ns st) \<le> bfs_measure st)"
  using assms
proof (induction ns arbitrary: st)
  case Nil
  then show ?case by (simp add: bfs_mid_def)
next
  case (Cons nb ns)
  from Cons.prems(1) have du: "fmlookup (bfs_dist st) u = Some (int k)"
    and dom: "fmdom (bfs_dist st) = fmdom adj"
    and vals: "\<And>v d. fmlookup (bfs_dist st) v = Some d \<Longrightarrow>
        d = - 1 \<or> (0 \<le> d \<and> d \<le> int k + 1 \<and> shortest adj s v (nat d))"
    unfolding bfs_mid_def by blast+
  have ix: "index_default 0 (bfs_dist st) u = (int k, bfs_dist st)"
    using du by (rule index_default_Some)
  have nbrs: "nb |\<in>| neighbors adj u" "\<forall>v \<in> set ns. v |\<in>| neighbors adj u"
    using Cons.prems(2) by simp_all
  show ?case
  proof (cases "fmlookup (bfs_dist st) nb = Some (- 1)")
    case unseen_nb: True
    define st1 where "st1 = st\<lparr>bfs_q := bfs_q st @ [nb], bfs_parent := fmupd nb u (bfs_parent st),
                       bfs_dist := fmupd nb (int k + 1) (bfs_dist st)\<rparr>"
    show ?thesis
    proof (cases "nb = e")
      case True
      define st2 where "st2 = st\<lparr>bfs_q := bfs_q st @ [e], bfs_parent := fmupd e u (bfs_parent st),
               bfs_dist := fmupd e (int32 (int k + 1)) (bfs_dist st),
               bfs_found := True, bfs_distance := int32 (int k + 1)\<rparr>"
      have res: "bfs_visit u e (nb # ns) st = st2"
        using unseen_nb ix True by (simp add: st2_def Let_def)
      have "bfs_post adj s e st2"
        unfolding st2_def using nbrs(1) True by (intro bfs_mid_found[OF Cons.prems(1)]) simp
      moreover have "bfs_found st2" by (simp add: st2_def)
      ultimately show ?thesis unfolding res by simp
    next
      case False
      note lvl = bfs_mid_level[OF Cons.prems(1) unseen_nb nbrs(1)]
      from fit False lvl have "int (Suc k) \<le> INT_MAX"
        unfolding levels_fit_def by blast
      then have "int32 (int k + 1) = int k + 1"
        by (intro int32_Suc) simp
      then have res: "bfs_visit u e (nb # ns) st = bfs_visit u e ns st1"
        using unseen_nb ix False by (simp add: st1_def)
      have mid1: "bfs_mid adj s e u k st1"
        unfolding st1_def by (rule bfs_mid_discover[OF Cons.prems(1) unseen_nb nbrs(1) False])
      note IH = Cons.IH[OF mid1 nbrs(2) Cons.prems(3)]
      have m1: "Suc (bfs_measure st1) = bfs_measure st"
        using unseen_discover[where d = "int k + 1" and q' = "bfs_q st @ [nb]"
            and p' = "fmupd nb u (bfs_parent st)", OF unseen_nb]
        unfolding bfs_measure_def st1_def by simp
      have nb1: "fmlookup (bfs_dist st1) nb = Some (int k + 1)" by (simp add: st1_def)
      have "visited (bfs_visit u e ns st1) nb"
        unfolding visited_def using bfs_visit_keeps[OF nb1, of u e ns] by simp
      with IH m1 show ?thesis unfolding res by auto
    qed
  next
    case False
    then have res: "bfs_visit u e (nb # ns) st = bfs_visit u e ns st" by simp
    note IH = Cons.IH[OF Cons.prems(1) nbrs(2) Cons.prems(3)]
    have "visited (bfs_visit u e ns st) nb" if "nb |\<in>| fmdom adj"
    proof -
      from that dom have "nb |\<in>| fmdom (bfs_dist st)" by simp
      then obtain d where d: "fmlookup (bfs_dist st) nb = Some d"
        by (auto simp: fmlookup_dom_iff)
      with False have "d \<noteq> - 1" by auto
      with vals[OF d] have "0 \<le> d" by auto
      with bfs_visit_keeps[OF d \<open>d \<noteq> - 1\<close>, of u e ns] show ?thesis
        by (auto simp: visited_def)
    qed
    with IH show ?thesis unfolding res by auto
  qed
qed

subsection \<open>Breadth-first search: the while loop\<close>

text \<open>
  \<open>bfs_measure\<close> decreases with every iteration, so the loop returns; it returns either
  with \<open>endUser\<close> found and its shortest distance, reduced to 32 bits, in \<open>distance\<close>, or
  with every user that a walk reaches discovered and \<open>endUser\<close> not among them.
\<close>

lemma bfs_mid_advance:
  assumes mid: "bfs_mid adj s e u k st"
    and all: "\<forall>v. v |\<in>| neighbors adj u \<and> v |\<in>| fmdom adj \<longrightarrow> visited st v"
  shows "bfs_inv adj s e st"
proof -
  from mid have adj: "bfs_adj st = adj" and dom: "fmdom (bfs_dist st) = fmdom adj"
    and nf: "\<not> bfs_found st" and dm: "bfs_distance st = - 1"
    and vals: "\<And>v d. fmlookup (bfs_dist st) v = Some d \<Longrightarrow>
        d = - 1 \<or> (0 \<le> d \<and> d \<le> int k + 1 \<and> shortest adj s v (nat d))"
    and du: "fmlookup (bfs_dist st) u = Some (int k)"
    and qs: "\<And>v. v \<in> set (bfs_q st) \<Longrightarrow> \<exists>d. fmlookup (bfs_dist st) v = Some d \<and> int k \<le> d"
    and srt: "sorted (map (\<lambda>v. the (fmlookup (bfs_dist st) v)) (bfs_q st))"
    and proc: "\<And>w v. visited st w \<Longrightarrow> w \<notin> set (bfs_q st) \<Longrightarrow> w \<noteq> u \<Longrightarrow> edge adj w v \<Longrightarrow> visited st v"
    and near: "\<And>v m. walk adj s m v \<Longrightarrow> m \<le> k \<Longrightarrow> visited st v"
    and de: "fmlookup (bfs_dist st) e = Some (- 1)"
    and chain: "parent_chain (bfs_parent st) (bfs_dist st) (- 1)"
    unfolding bfs_mid_def by blast+
  have done_u: "visited st v" if "edge adj u v" for v
    using all that by (simp add: edge_def)
  show ?thesis
  proof (cases "bfs_q st")
    case Nil
    have "visited st s" using near[of 0 s] by simp
    moreover have "visited st v" if "visited st w" "edge adj w v" for w v
      using that proc[of w v] done_u Nil by (cases "w = u") auto
    ultimately have "bfs_done adj s e st"
      unfolding bfs_done_def using adj nf dm de by blast
    then show ?thesis by (simp add: bfs_inv_def Nil)
  next
    case (Cons u' rest)
    from qs[of u'] Cons obtain d where d: "fmlookup (bfs_dist st) u' = Some d" "int k \<le> d" by auto
    with vals[OF d(1)] have dle: "d \<le> int k + 1" by auto
    define k' where "k' = nat d"
    have k': "int k' = d" "k \<le> k'" "k' \<le> Suc k" using d(2) dle by (simp_all add: k'_def)
    let ?st = "st\<lparr>bfs_q := rest\<rparr>"
    have rest_ge: "\<exists>dv. fmlookup (bfs_dist st) v = Some dv \<and> d \<le> dv" if "v \<in> set rest" for v
    proof -
      from that Cons qs[of v] obtain dv where dv: "fmlookup (bfs_dist st) v = Some dv" by auto
      from srt Cons that have "the (fmlookup (bfs_dist st) u') \<le> the (fmlookup (bfs_dist st) v)"
        by auto
      with d dv show ?thesis by simp
    qed
    have c3: "dv = - 1 \<or> (0 \<le> dv \<and> dv \<le> int k' + 1 \<and> shortest adj s v (nat dv))"
      if "fmlookup (bfs_dist st) v = Some dv" for v dv
      using vals[OF that] k' by auto
    have c5: "\<exists>dv. fmlookup (bfs_dist st) v = Some dv \<and> int k' \<le> dv" if "v \<in> set rest" for v
      using rest_ge[OF that] k' by simp
    have c6: "sorted (map (\<lambda>v. the (fmlookup (bfs_dist st) v)) rest)"
      using srt Cons by simp
    have inq: "\<exists>dw. fmlookup (bfs_dist st) w = Some dw \<and> d \<le> dw" if "w \<in> set (bfs_q st)" for w
      using that Cons d rest_ge by auto
    have c7: "visited st v" if "visited st w" "w \<notin> set rest" "w \<noteq> u'" "edge adj w v" for w v
    proof (cases "w = u")
      case True
      with that(4) show ?thesis by (simp add: done_u)
    next
      case False
      from that(2,3) Cons have "w \<notin> set (bfs_q st)" by simp
      from proc[OF that(1) this False that(4)] show ?thesis .
    qed
    have c8: "visited st v" if w: "walk adj s m v" "m \<le> k'" for v m
    proof (cases "m \<le> k")
      case True
      with near[OF w(1)] show ?thesis .
    next
      case False
      with w(2) k' have m: "m = Suc k" "k' = Suc k" by simp_all
      from w(1) m obtain w' where w': "walk adj s k w'" "edge adj w' v"
        by (auto simp: walk_Suc_iff)
      from near[OF w'(1)] have vw: "visited st w'" by simp
      then obtain dw where dw: "fmlookup (bfs_dist st) w' = Some dw" "0 \<le> dw"
        by (auto simp: visited_def)
      with vals[OF dw(1)] have "shortest adj s w' (nat dw)" by auto
      with w'(1) have "nat dw \<le> k" by (simp add: shortest_def)
      with dw(2) have "dw < d" using k' m by linarith
      have "w' \<notin> set (bfs_q st)"
      proof
        assume "w' \<in> set (bfs_q st)"
        from inq[OF this] dw(1) \<open>dw < d\<close> show False by auto
      qed
      then show ?thesis
      proof (cases "w' = u")
        case True
        with w'(2) show ?thesis by (simp add: done_u)
      next
        case False
        from proc[OF vw \<open>w' \<notin> set (bfs_q st)\<close> False w'(2)] show ?thesis .
      qed
    qed
    have "bfs_mid adj s e u' k' ?st"
      unfolding bfs_mid_def
      using adj dom nf dm c3 d(1) k'(1) c5 c6 c7 c8 de chain
      by simp blast
    then show ?thesis unfolding bfs_inv_def Cons by auto
  qed
qed

lemma bfs_inv_not_found: "bfs_inv adj s e st \<Longrightarrow> \<not> bfs_found st"
  by (auto simp: bfs_inv_def bfs_done_def bfs_mid_def split: list.splits)

lemma bfs_loop_correct:
  assumes "bfs_inv adj s e st" and fit: "levels_fit adj s e"
  shows "\<exists>st'. bfs_loop e st = Some (Inr st') \<and> (bfs_post adj s e st' \<or> bfs_done adj s e st')"
  using assms(1)
proof (induction "bfs_measure st" arbitrary: st rule: less_induct)
  case less
  note nf = bfs_inv_not_found[OF less.prems]
  show ?case
  proof (cases "bfs_q st")
    case Nil
    with less.prems have "bfs_done adj s e st" by (simp add: bfs_inv_def)
    moreover have "bfs_loop e st = Some (Inr st)" using Nil by (subst bfs_loop.simps) simp
    ultimately show ?thesis by blast
  next
    case (Cons u rest)
    define st1 where "st1 = st\<lparr>bfs_q := rest\<rparr>"
    from less.prems Cons obtain k where mid: "bfs_mid adj s e u k st1"
      by (auto simp: bfs_inv_def st1_def)
    then have adj1: "bfs_adj st1 = adj" and du: "fmlookup (bfs_dist st1) u = Some (int k)"
      and dom: "fmdom (bfs_dist st1) = fmdom adj"
      unfolding bfs_mid_def by blast+
    have "u |\<in>| fmdom adj" using du dom by (metis fmdomI)
    then obtain friends where fr: "fmlookup adj u = Some friends"
      by (auto simp: fmlookup_dom_iff)
    define st2 where "st2 = bfs_visit u e (sorted_list_of_fset friends) st1"
    have unfold: "bfs_loop e st = bfs_loop e st2"
      using Cons nf fr adj1
      by (subst bfs_loop.simps) (simp add: st1_def[symmetric] st2_def Let_def)
    have nb: "\<forall>v \<in> set (sorted_list_of_fset friends). v |\<in>| neighbors adj u"
      using fr by simp
    note vis = bfs_visit_inv[OF mid nb fit, folded st2_def]
    show ?thesis
    proof (cases "bfs_found st2")
      case True
      with vis have "bfs_post adj s e st2" by simp
      moreover have "bfs_loop e st2 = Some (Inr st2)" using True by (subst bfs_loop.simps) simp
      ultimately show ?thesis unfolding unfold by blast
    next
      case False
      with vis have mid2: "bfs_mid adj s e u k st2"
        and all: "\<forall>v \<in> set (sorted_list_of_fset friends). v |\<in>| fmdom adj \<longrightarrow> visited st2 v"
        and m: "bfs_measure st2 \<le> bfs_measure st1" by simp_all
      have "bfs_inv adj s e st2"
        using all fr by (intro bfs_mid_advance[OF mid2]) simp
      moreover have "bfs_measure st1 < bfs_measure st"
        using Cons by (simp add: bfs_measure_def st1_def unseen_def)
      ultimately show ?thesis
        unfolding unfold using less.hyps[of st2] m by simp
    qed
  qed
qed

lemma bfs_done_unreachable:
  assumes "bfs_done adj s e st"
  shows "\<not> walk adj s n e"
proof
  assume w: "walk adj s n e"
  have "visited st v" if "walk adj s m v" for m v
    using that assms by (induction rule: walk.induct) (auto simp: bfs_done_def)
  from this[OF w] assms show False by (simp add: bfs_done_def visited_def)
qed

subsection \<open>Breadth-first search: the method\<close>

lemma bfs_init_dist:
  "fmlookup (bfs_dist (bfs_init ks st)) v =
     (if v \<in> set ks then Some (- 1) else fmlookup (bfs_dist st) v)"
  by (induction ks arbitrary: st) auto

lemma bfs_init_parent:
  "fmlookup (bfs_parent (bfs_init ks st)) v =
     (if v \<in> set ks then Some [] else fmlookup (bfs_parent st) v)"
  by (induction ks arbitrary: st) auto

lemma bfs_init_rest:
  "bfs_adj (bfs_init ks st) = bfs_adj st \<and> bfs_q (bfs_init ks st) = bfs_q st \<and>
   bfs_found (bfs_init ks st) = bfs_found st \<and> bfs_distance (bfs_init ks st) = bfs_distance st"
  by (induction ks arbitrary: st) auto

lemma bfs_start_fields:
  "bfs_adj (bfs_start adj s) = adj" "bfs_q (bfs_start adj s) = [s]"
  "\<not> bfs_found (bfs_start adj s)" "bfs_distance (bfs_start adj s) = - 1"
  "fmlookup (bfs_dist (bfs_start adj s)) v =
     (if v = s then Some 0 else if v |\<in>| fmdom adj then Some (- 1) else None)"
  "fmlookup (bfs_parent (bfs_start adj s)) v = (if v |\<in>| fmdom adj then Some [] else None)"
  by (simp_all add: bfs_start_def Let_def bfs_init_rest bfs_init_dist bfs_init_parent)

lemma bfs_start_inv:
  assumes "s |\<in>| fmdom adj" "e |\<in>| fmdom adj" "s \<noteq> e"
  shows "bfs_inv adj s e (bfs_start adj s)"
proof -
  let ?st = "(bfs_start adj s)\<lparr>bfs_q := []\<rparr>"
  have dom: "fmdom (bfs_dist ?st) = fmdom adj"
    using assms(1) by (auto simp: fmlookup_dom_iff bfs_start_fields split: if_splits intro!: fset_eqI)
  have vis: "visited (bfs_start adj s) v \<longleftrightarrow> v = s" for v
    by (auto simp: visited_def bfs_start_fields)
  have "bfs_mid adj s e s 0 ?st"
    unfolding bfs_mid_def parent_chain_def
    using assms dom by (auto simp: bfs_start_fields vis shortest_start split: if_splits)
  then show ?thesis by (auto simp: bfs_inv_def bfs_start_fields)
qed

lemma shortestPathBFS_self:
  "s |\<in>| fmdom adj \<Longrightarrow> shortestPathBFS adj s s = Some (Inr ((0, [s]), None, adj))"
  by (auto simp: shortestPathBFS_def fmlookup_dom_iff)

lemma shortestPathBFS_unfold:
  assumes "s |\<in>| fmdom adj" "e |\<in>| fmdom adj" "s \<noteq> e"
    and "bfs_loop e (bfs_start adj s) = Some (Inr st)"
  shows "shortestPathBFS adj s e =
      (if bfs_found st then
         (case bfs_path (bfs_parent st) e [] of
            None \<Rightarrow> None
          | Some path \<Rightarrow> Some (Inr ((bfs_distance st, path), None, bfs_adj st)))
       else Some (Inr ((bfs_distance st, []), Some (NoPathFound BFS s e), bfs_adj st)))"
  using assms unfolding shortestPathBFS_def bfs_start_def[symmetric, unfolded Let_def] Let_def
  by (auto simp: fmlookup_dom_iff bfs_start_def Let_def)

lemma shortestPathBFS_result:
  assumes "s |\<in>| fmdom adj" "e |\<in>| fmdom adj" "s \<noteq> e" "levels_fit adj s e"
  shows "(\<exists>n p. shortestPathBFS adj s e = Some (Inr ((int32 (int n), p), None, adj)) \<and>
            shortest adj s e n) \<or>
         (shortestPathBFS adj s e = Some (Inr ((- 1, []), Some (NoPathFound BFS s e), adj)) \<and>
          (\<forall>n. \<not> walk adj s n e))"
proof -
  from bfs_loop_correct[OF bfs_start_inv[OF assms(1-3)] assms(4)]
  obtain st where st: "bfs_loop e (bfs_start adj s) = Some (Inr st)"
    and fin: "bfs_post adj s e st \<or> bfs_done adj s e st" by blast
  note sp = shortestPathBFS_unfold[OF assms(1-3) st]
  from fin show ?thesis
  proof
    assume post: "bfs_post adj s e st"
    then obtain n p where n: "bfs_distance st = int32 (int n)" "shortest adj s e n"
      and p: "bfs_path (bfs_parent st) e [] = Some p"
      and f: "bfs_found st" "bfs_adj st = adj"
      unfolding bfs_post_def by blast
    with sp show ?thesis by auto
  next
    assume dn: "bfs_done adj s e st"
    then have "\<not> bfs_found st" "bfs_distance st = - 1" "bfs_adj st = adj"
      by (simp_all add: bfs_done_def)
    with sp bfs_done_unreachable[OF dn] show ?thesis by auto
  qed
qed

text \<open>
  When the least number of edges from \<open>s\<close> to \<open>e\<close> fits the type \<^verbatim>\<open>int\<close>, the search
  returns it.
\<close>

lemma levels_fit_shortest:
  assumes "shortest adj s e n" "int n \<le> INT_MAX"
  shows "levels_fit adj s e"
  unfolding levels_fit_def
proof (intro allI impI)
  fix v k assume a: "v \<noteq> e \<and> shortest adj s v k \<and> (\<forall>m. walk adj s m e \<longrightarrow> k \<le> m)"
  from assms(1) have "walk adj s n e" by (simp add: shortest_def)
  with a have "k \<le> n" by blast
  with assms(2) show "int k \<le> INT_MAX" by simp
qed

lemma shortestPathBFS_exact:
  assumes "s |\<in>| fmdom adj" "e |\<in>| fmdom adj" "s \<noteq> e"
    and "shortest adj s e n" "int n \<le> INT_MAX"
  shows "\<exists>p. shortestPathBFS adj s e = Some (Inr ((int n, p), None, adj))"
proof -
  from assms(4) have w: "walk adj s n e" by (simp add: shortest_def)
  from shortestPathBFS_result[OF assms(1-3) levels_fit_shortest[OF assms(4,5)]] w
  obtain n' p where r: "shortestPathBFS adj s e = Some (Inr ((int32 (int n'), p), None, adj))"
    and n': "shortest adj s e n'" by blast
  from shortest_unique[OF n' assms(4)] have "n' = n" .
  with r int32_nat[OF assms(5)] show ?thesis by simp
qed

subsection \<open>Breadth-first search in a graph of any size\<close>

text \<open>
  Without a bound on the distances the recorded distances may wrap around, but the loop
  still returns: an iteration discovers a user for good (fewer users are left with the
  distance \<open>-1\<close>), or it is the turn of a user that gives its neighbours the distance
  \<open>-1\<close> again (one queue entry less of such users), or it only shortens the queue.
\<close>

lemma wf_bfs_order: "wf bfs_order"
  unfolding bfs_order_def by (intro wf_inv_image wf_lex_prod wf_less_than)

lemma bfs_order_iff:
  "(st', st) \<in> bfs_order \<longleftrightarrow>
     unseen st' < unseen st \<or>
     (unseen st' = unseen st \<and>
        (pending st' < pending st \<or>
         (pending st' = pending st \<and> length (bfs_q st') < length (bfs_q st))))"
  by (simp add: bfs_order_def)

lemma fmupd_same: "fmlookup m k = Some v \<Longrightarrow> fmupd k v m = m"
  by (rule fmap_ext) auto

lemma bfs_visit_coarse:
  assumes "bfs_coarse adj s e st" "\<not> bfs_found st"
    and "u |\<in>| fmdom adj" "walk adj s k u" "\<forall>v \<in> set ns. v |\<in>| neighbors adj u"
  shows "bfs_coarse adj s e (bfs_visit u e ns st) \<and>
         (unseen (bfs_visit u e ns st) < unseen st \<or>
          (bfs_dist (bfs_visit u e ns st) = bfs_dist st \<and>
           (\<exists>ps. bfs_q (bfs_visit u e ns st) = bfs_q st @ ps \<and>
                 (\<forall>p \<in> set ps. fmlookup (bfs_dist st) p = Some (- 1)) \<and>
                 (ps \<noteq> [] \<longrightarrow> turns (bfs_dist st) u))))"
  using assms(1,2,5)
proof (induction ns arbitrary: st)
  case Nil
  then show ?case by simp
next
  case (Cons nb ns)
  from Cons.prems(1) have adj: "bfs_adj st = adj" and dom: "fmdom (bfs_dist st) = fmdom adj"
    and qs: "\<forall>v \<in> set (bfs_q st). v |\<in>| fmdom adj \<and> (\<exists>n. walk adj s n v)"
    and dm: "bfs_distance st = - 1"
    using Cons.prems(2) unfolding bfs_coarse_def by blast+
  from assms(3) dom obtain dcur where dcur: "fmlookup (bfs_dist st) u = Some dcur"
    by (auto simp: fmlookup_dom_iff[symmetric])
  have ix: "index_default 0 (bfs_dist st) u = (dcur, bfs_dist st)"
    using dcur by (rule index_default_Some)
  have nbrs: "nb |\<in>| neighbors adj u" "\<forall>v \<in> set ns. v |\<in>| neighbors adj u"
    using Cons.prems(3) by simp_all
  show ?case
  proof (cases "fmlookup (bfs_dist st) nb = Some (- 1)")
    case False
    then have res: "bfs_visit u e (nb # ns) st = bfs_visit u e ns st" by simp
    from Cons.IH[OF Cons.prems(1,2) nbrs(2)] show ?thesis unfolding res .
  next
    case unseen_nb: True
    define dnb where "dnb = int32 (dcur + 1)"
    define st1 where "st1 = st\<lparr>bfs_q := bfs_q st @ [nb], bfs_parent := fmupd nb u (bfs_parent st),
                       bfs_dist := fmupd nb dnb (bfs_dist st)\<rparr>"
    have nbdom: "nb |\<in>| fmdom adj" using unseen_nb dom by (metis fmdomI)
    have "edge adj u nb" using nbrs(1) nbdom by (simp add: edge_def)
    with assms(4) have wnb: "walk adj s (Suc k) nb" by (rule walk_step)
    have c1: "bfs_coarse adj s e st1"
      unfolding bfs_coarse_def
      using adj dom qs dm Cons.prems(2) nbdom wnb by (auto simp: st1_def)
    have nf1: "\<not> bfs_found st1" using Cons.prems(2) by (simp add: st1_def)
    have m1: "unseen st1 < unseen st \<or>
         (bfs_dist st1 = bfs_dist st \<and> turns (bfs_dist st) u)"
    proof (cases "dnb = - 1")
      case True
      then have "bfs_dist st1 = bfs_dist st"
        using unseen_nb by (simp add: st1_def fmupd_same)
      moreover have "turns (bfs_dist st) u"
        using True dcur by (simp add: turns_def dnb_def)
      ultimately show ?thesis by simp
    next
      case False
      from unseen_discover[where d = dnb and q' = "bfs_q st @ [nb]"
            and p' = "fmupd nb u (bfs_parent st)", OF unseen_nb False]
      show ?thesis by (simp add: st1_def)
    qed
    show ?thesis
    proof (cases "nb = e")
      case True
      have res: "bfs_visit u e (nb # ns) st = st1\<lparr>bfs_found := True, bfs_distance := dnb\<rparr>"
        using unseen_nb ix True by (simp add: st1_def dnb_def Let_def)
      have "bfs_coarse adj s e (st1\<lparr>bfs_found := True, bfs_distance := dnb\<rparr>)"
        using c1 wnb True unfolding bfs_coarse_def by auto
      moreover have "unseen (st1\<lparr>bfs_found := True, bfs_distance := dnb\<rparr>) = unseen st1"
        by (simp add: unseen_def)
      moreover have "bfs_q (st1\<lparr>bfs_found := True, bfs_distance := dnb\<rparr>) = bfs_q st @ [nb]"
        by (simp add: st1_def)
      ultimately show ?thesis unfolding res using m1 unseen_nb by auto
    next
      case False
      have res: "bfs_visit u e (nb # ns) st = bfs_visit u e ns st1"
        using unseen_nb ix False by (simp add: st1_def dnb_def)
      note IH = Cons.IH[OF c1 nf1 nbrs(2)]
      from IH have c: "bfs_coarse adj s e (bfs_visit u e ns st1)" by simp
      from m1 have le: "unseen st1 \<le> unseen st" by (auto simp: unseen_def)
      show ?thesis
      proof (cases "unseen (bfs_visit u e ns st1) < unseen st1")
        case True
        with le c show ?thesis unfolding res by simp
      next
        case nless: False
        with IH obtain ps where d: "bfs_dist (bfs_visit u e ns st1) = bfs_dist st1"
          and q: "bfs_q (bfs_visit u e ns st1) = bfs_q st1 @ ps"
          and ps: "\<forall>p \<in> set ps. fmlookup (bfs_dist st1) p = Some (- 1)"
          by blast
        from m1 show ?thesis
        proof
          assume "unseen st1 < unseen st"
          with d c show ?thesis unfolding res by (simp add: unseen_def)
        next
          assume same: "bfs_dist st1 = bfs_dist st \<and> turns (bfs_dist st) u"
          have q': "bfs_q (bfs_visit u e ns st1) = bfs_q st @ (nb # ps)"
            using q by (simp add: st1_def)
          have ps': "\<forall>p \<in> set (nb # ps). fmlookup (bfs_dist st) p = Some (- 1)"
            using ps same unseen_nb by simp
          have "\<exists>ps'. bfs_q (bfs_visit u e ns st1) = bfs_q st @ ps' \<and>
                 (\<forall>p \<in> set ps'. fmlookup (bfs_dist st) p = Some (- 1)) \<and>
                 (ps' \<noteq> [] \<longrightarrow> turns (bfs_dist st) u)"
            using q' ps' same by (intro exI[of _ "nb # ps"]) simp
          moreover have "bfs_dist (bfs_visit u e ns st1) = bfs_dist st" using d same by simp
          ultimately show ?thesis unfolding res using c by simp
        qed
      qed
    qed
  qed
qed

lemma pending_append:
  assumes "\<forall>p \<in> set ps. fmlookup dist p = Some (- 1)"
  shows "filter (turns dist) (q @ ps) = filter (turns dist) q"
proof -
  have "\<not> turns dist p" if "p \<in> set ps" for p
    using assms that by (simp add: turns_def)
  then show ?thesis by simp
qed

lemma bfs_loop_coarse:
  assumes "bfs_coarse adj s e st"
  shows "\<exists>st'. bfs_loop e st = Some (Inr st') \<and> bfs_coarse adj s e st'"
  using assms
proof (induction st rule: wf_induct_rule[OF wf_bfs_order])
  case (1 st)
  show ?case
  proof (cases "bfs_q st \<noteq> [] \<and> \<not> bfs_found st")
    case False
    then have "bfs_loop e st = Some (Inr st)" by (subst bfs_loop.simps) auto
    with "1.prems" show ?thesis by simp
  next
    case True
    then obtain u rest where q: "bfs_q st = u # rest" by (cases "bfs_q st") auto
    from True have nf: "\<not> bfs_found st" by simp
    define st1 where "st1 = st\<lparr>bfs_q := rest\<rparr>"
    from "1.prems" q have adj1: "bfs_adj st1 = adj" and udom: "u |\<in>| fmdom adj"
      and c1: "bfs_coarse adj s e st1"
      by (auto simp: bfs_coarse_def st1_def)
    from "1.prems" q obtain k where wu: "walk adj s k u" by (auto simp: bfs_coarse_def)
    from udom obtain friends where fr: "fmlookup adj u = Some friends"
      by (auto simp: fmlookup_dom_iff)
    define st2 where "st2 = bfs_visit u e (sorted_list_of_fset friends) st1"
    have unfold: "bfs_loop e st = bfs_loop e st2"
      using q nf fr adj1
      by (subst bfs_loop.simps) (simp add: st1_def[symmetric] st2_def Let_def)
    have nb: "\<forall>v \<in> set (sorted_list_of_fset friends). v |\<in>| neighbors adj u"
      using fr by simp
    have nf1: "\<not> bfs_found st1" using nf by (simp add: st1_def)
    note vis = bfs_visit_coarse[OF c1 nf1 udom wu nb, folded st2_def]
    have u1: "unseen st1 = unseen st" by (simp add: st1_def unseen_def)
    have "(st2, st) \<in> bfs_order"
    proof (cases "unseen st2 < unseen st1")
      case True
      with u1 show ?thesis by (simp add: bfs_order_iff)
    next
      case False
      with vis obtain ps where d: "bfs_dist st2 = bfs_dist st1"
        and q2: "bfs_q st2 = bfs_q st1 @ ps"
        and ps: "\<forall>p \<in> set ps. fmlookup (bfs_dist st1) p = Some (- 1)"
        and tu: "ps \<noteq> [] \<longrightarrow> turns (bfs_dist st1) u"
        by blast
      have d1: "bfs_dist st1 = bfs_dist st" by (simp add: st1_def)
      have u2: "unseen st2 = unseen st" using d d1 by (simp add: unseen_def)
      have p2: "pending st2 = length (filter (turns (bfs_dist st)) rest)"
        unfolding pending_def d q2 using pending_append[OF ps] by (simp add: st1_def)
      show ?thesis
      proof (cases "ps = []")
        case True
        then have "length (bfs_q st2) < length (bfs_q st)" using q2 q by (simp add: st1_def)
        moreover have "pending st2 \<le> pending st" using p2 q by (simp add: pending_def)
        ultimately show ?thesis using u2 by (auto simp: bfs_order_iff)
      next
        case False
        with tu d1 have "turns (bfs_dist st) u" by simp
        then have "pending st2 < pending st" using p2 q by (simp add: pending_def)
        then show ?thesis using u2 by (simp add: bfs_order_iff)
      qed
    qed
    moreover from vis have "bfs_coarse adj s e st2" by simp
    ultimately show ?thesis unfolding unfold by (rule "1.IH")
  qed
qed

lemma bfs_start_coarse:
  assumes "s |\<in>| fmdom adj"
  shows "bfs_coarse adj s e (bfs_start adj s)"
proof -
  have "fmdom (bfs_dist (bfs_start adj s)) = fmdom adj"
    using assms by (auto simp: fmlookup_dom_iff bfs_start_fields split: if_splits intro!: fset_eqI)
  moreover have "\<exists>n. walk adj s n s" by (rule exI[of _ 0]) simp
  ultimately show ?thesis
    unfolding bfs_coarse_def using assms by (simp add: bfs_start_fields)
qed

lemma shortestPathBFS_no_walk:
  assumes "s |\<in>| fmdom adj" "e |\<in>| fmdom adj" "s \<noteq> e" "\<forall>n. \<not> walk adj s n e"
  shows "shortestPathBFS adj s e = Some (Inr ((- 1, []), Some (NoPathFound BFS s e), adj))"
proof -
  from bfs_loop_coarse[OF bfs_start_coarse[OF assms(1)]]
  obtain st where st: "bfs_loop e (bfs_start adj s) = Some (Inr st)"
    and c: "bfs_coarse adj s e st" by blast
  from c assms(4) have "\<not> bfs_found st" "bfs_distance st = - 1" "bfs_adj st = adj"
    unfolding bfs_coarse_def by blast+
  with shortestPathBFS_unfold[OF assms(1-3) st] show ?thesis by simp
qed

lemma shortestPathBFS_returns_graph:
  assumes "shortestPathBFS adj s e = Some x"
  shows "\<exists>r m. x = Inr (r, m, adj)"
proof (cases "s |\<in>| fmdom adj \<and> e |\<in>| fmdom adj \<and> s \<noteq> e")
  case False
  with assms show ?thesis
    by (auto simp: shortestPathBFS_def fmlookup_dom_iff split: if_splits)
next
  case True
  then have u: "s |\<in>| fmdom adj" "e |\<in>| fmdom adj" "s \<noteq> e" by simp_all
  from bfs_loop_coarse[OF bfs_start_coarse[OF u(1)]]
  obtain st where st: "bfs_loop e (bfs_start adj s) = Some (Inr st)"
    and c: "bfs_coarse adj s e st" by blast
  from c have "bfs_adj st = adj" by (simp add: bfs_coarse_def)
  with shortestPathBFS_unfold[OF u st] assms show ?thesis
    by (auto split: if_splits option.splits)
qed

lemma shortestPathBFS_returns:
  assumes "\<forall>n. shortest adj s e n \<longrightarrow> int n \<le> INT_MAX"
  shows "\<exists>r m. shortestPathBFS adj s e = Some (Inr (r, m, adj))"
proof (cases "s |\<in>| fmdom adj \<and> e |\<in>| fmdom adj \<and> s \<noteq> e")
  case False
  then show ?thesis by (auto simp: shortestPathBFS_def fmlookup_dom_iff)
next
  case True
  then have u: "s |\<in>| fmdom adj" "e |\<in>| fmdom adj" "s \<noteq> e" by simp_all
  show ?thesis
  proof (cases "\<exists>n. walk adj s n e")
    case False
    with shortestPathBFS_no_walk[OF u] show ?thesis by simp
  next
    case True
    then obtain n where n: "shortest adj s e n" using walk_exists_shortest by blast
    with assms have "int n \<le> INT_MAX" by simp
    from shortestPathBFS_exact[OF u n this] show ?thesis by blast
  qed
qed

subsection \<open>Dijkstra: the priority queue and the relaxation loop\<close>

text \<open>
  With edges of weight 1 the algorithm settles the users level by level, like the
  breadth-first search: a finite distance is exact from the moment it is recorded, and
  no entry of the queue is ever stale. A user at distance \<^verbatim>\<open>INF\<close> or more is never
  relaxed.
\<close>

lemma pq_top_Min: "pq \<noteq> [] \<Longrightarrow> pq_top pq = Min (set pq)"
  by (cases pq) (simp_all add: pq_top_def Min.set_eq_fold[symmetric])

lemma pq_top_in: "pq \<noteq> [] \<Longrightarrow> pq_top pq \<in> set pq"
  using Min_in[of "set pq"] by (simp add: pq_top_Min)

lemma pq_top_least: "x \<in> set pq \<Longrightarrow> fst (pq_top pq) \<le> fst x"
proof -
  assume x: "x \<in> set pq"
  then have "pq \<noteq> []" by auto
  then have "pq_top pq \<le> x" using x by (simp add: pq_top_Min)
  then show ?thesis by (auto simp: less_eq_prod_def)
qed

lemma reached_upd:
  "reached (st\<lparr>dj_pq := q', dj_parent := p', dj_dist := fmupd nb d (dj_dist st)\<rparr>) v
     \<longleftrightarrow> (if v = nb then d \<noteq> INF_int else reached st v)"
  by (simp add: reached_def)

lemma reached_pq_upd [simp]: "reached (st\<lparr>dj_pq := q'\<rparr>) v = reached st v"
  by (simp add: reached_def)

lemma dj_mid_relax:
  assumes mid: "dj_mid adj s e u k st"
    and nb: "fmlookup (dj_dist st) nb = Some INF_int"
    and adjacent: "nb |\<in>| neighbors adj u"
    and small: "int k + 1 < INF_int"
  defines "st1 \<equiv> st\<lparr>dj_pq := pq_push (int k + 1, nb) (dj_pq st),
                       dj_parent := fmupd nb u (dj_parent st),
                       dj_dist := fmupd nb (int k + 1) (dj_dist st)\<rparr>"
  shows "dj_mid adj s e u k st1"
proof -
  from mid have adj: "dj_adj st = adj" and dom: "fmdom (dj_dist st) = fmdom adj"
    and nf: "\<not> dj_found st" and dm: "dj_finalDistance st = - 1" and kI: "int k < INF_int"
    and vals: "\<And>v d. fmlookup (dj_dist st) v = Some d \<Longrightarrow>
        d = INF_int \<or> (0 \<le> d \<and> d \<le> int k + 1 \<and> d < INF_int \<and> shortest adj s v (nat d))"
    and du: "fmlookup (dj_dist st) u = Some (int k)"
    and qs: "\<And>x. x \<in> set (dj_pq st) \<Longrightarrow>
        fmlookup (dj_dist st) (snd x) = Some (fst x) \<and> int k \<le> fst x \<and> fst x < INF_int"
    and dis: "distinct (dj_pq st)"
    and proc: "\<And>w dw v. fmlookup (dj_dist st) w = Some dw \<Longrightarrow> dw + 1 < INF_int \<Longrightarrow>
        (dw, w) \<notin> set (dj_pq st) \<Longrightarrow> w \<noteq> u \<Longrightarrow> edge adj w v \<Longrightarrow> reached st v"
    and near: "\<And>v m. walk adj s m v \<Longrightarrow> m \<le> k \<Longrightarrow> reached st v"
    and de: "\<And>d. fmlookup (dj_dist st) e = Some d \<Longrightarrow> d \<noteq> INF_int \<Longrightarrow> (d, e) \<in> set (dj_pq st) \<or> e = u"
    and chain: "parent_chain (dj_parent st) (dj_dist st) INF_int"
    unfolding dj_mid_def by blast+
  have nbdom: "nb |\<in>| fmdom adj" using nb dom by (metis fmdomI)
  have edge: "edge adj u nb" using adjacent nbdom by (simp add: edge_def)
  have nbu: "nb \<noteq> u" using nb du kI by auto
  have nbq: "snd x \<noteq> nb" if "x \<in> set (dj_pq st)" for x using nb qs[OF that] by auto
  have not_r: "\<not> reached st nb" using nb by (simp add: reached_def)
  have su: "shortest adj s u k" using vals[OF du] kI by simp
  have far: "\<forall>m. walk adj s m nb \<longrightarrow> k < m"
    using near not_r by (meson not_le)
  have snb: "shortest adj s nb (Suc k)" by (rule shortest_step[OF su edge far])
  have r_mono: "reached st v \<Longrightarrow> reached st1 v" for v
    using small by (auto simp: st1_def reached_upd)
  have c1: "dj_adj st1 = adj" "\<not> dj_found st1" "dj_finalDistance st1 = - 1"
    using adj nf dm by (simp_all add: st1_def)
  have c2: "fmdom (dj_dist st1) = fmdom adj"
    using dom nbdom by (auto simp: st1_def)
  have c3: "d = INF_int \<or> (0 \<le> d \<and> d \<le> int k + 1 \<and> d < INF_int \<and> shortest adj s v (nat d))"
    if "fmlookup (dj_dist st1) v = Some d" for v d
  proof (cases "v = nb")
    case True
    with that have "d = int k + 1" by (simp add: st1_def)
    moreover have "nat (int k + 1) = Suc k" by simp
    ultimately show ?thesis using snb True small by simp
  next
    case False
    with that have "fmlookup (dj_dist st) v = Some d" by (simp add: st1_def)
    then show ?thesis by (rule vals)
  qed
  have c4: "fmlookup (dj_dist st1) u = Some (int k)"
    using du nbu by (simp add: st1_def)
  have c5: "fmlookup (dj_dist st1) (snd x) = Some (fst x) \<and> int k \<le> fst x \<and> fst x < INF_int"
    if "x \<in> set (dj_pq st1)" for x
  proof (cases "x = (int k + 1, nb)")
    case True
    then show ?thesis using small by (simp add: st1_def)
  next
    case False
    with that have x: "x \<in> set (dj_pq st)" by (simp add: st1_def pq_push_def)
    from qs[OF x] nbq[OF x] show ?thesis by (simp add: st1_def)
  qed
  have c6: "distinct (dj_pq st1)"
    using dis nbq[of "(int k + 1, nb)"] by (auto simp: st1_def pq_push_def)
  have c7: "reached st1 v"
    if "fmlookup (dj_dist st1) w = Some dw" "dw + 1 < INF_int" "(dw, w) \<notin> set (dj_pq st1)"
       "w \<noteq> u" "edge adj w v" for w dw v
  proof -
    have "w \<noteq> nb" using that(1,3) by (auto simp: st1_def pq_push_def)
    with that(1) have a: "fmlookup (dj_dist st) w = Some dw" by (simp add: st1_def)
    from that(3) have b: "(dw, w) \<notin> set (dj_pq st)" by (simp add: st1_def pq_push_def)
    have "reached st v" by (rule proc[OF a that(2) b that(4,5)])
    then show ?thesis by (rule r_mono)
  qed
  have c8: "reached st1 v" if "walk adj s m v" "m \<le> k" for v m
    using near[OF that] by (rule r_mono)
  have c9: "(d, e) \<in> set (dj_pq st1) \<or> e = u"
    if "fmlookup (dj_dist st1) e = Some d" "d \<noteq> INF_int" for d
  proof (cases "e = nb")
    case True
    with that show ?thesis by (simp add: st1_def pq_push_def)
  next
    case False
    with that de[of d] show ?thesis by (auto simp: st1_def pq_push_def)
  qed
  have bound: "d \<noteq> INF_int + 1" if "fmlookup (dj_dist st) v = Some d" for v d
    using vals[OF that] by auto
  have c10: "parent_chain (dj_parent st1) (dj_dist st1) INF_int"
    unfolding st1_def using small kI bound
    by (simp, intro parent_chain_discover[OF chain nb du]) (auto simp: INF_int_def)
  show ?thesis
    unfolding dj_mid_def
    using c1 c2 kI c3 c4 c5 c6 c7 c8 c9 c10 by blast
qed

lemma far_card:
  assumes "fmlookup (dj_dist st) nb = Some INF_int" "d \<noteq> INF_int"
  shows "Suc (card {v. fmlookup (fmupd nb d (dj_dist st)) v = Some INF_int})
           = card {v. fmlookup (dj_dist st) v = Some INF_int}"
proof -
  have "{v. fmlookup (fmupd nb d (dj_dist st)) v = Some INF_int}
          = {v. fmlookup (dj_dist st) v = Some INF_int} - {nb}"
    using assms by auto
  moreover have "nb \<in> {v. fmlookup (dj_dist st) v = Some INF_int}" using assms by simp
  ultimately show ?thesis
    using card.remove[OF finite_unseen[of "dj_dist st" INF_int], of nb] by simp
qed

lemma dj_relax_inv:
  assumes "dj_mid adj s e u k st" "\<forall>v \<in> set ns. v |\<in>| neighbors adj u"
  shows "dj_mid adj s e u k (dijkstra_relax u ns st) \<and>
         (int k + 1 < INF_int \<longrightarrow>
            (\<forall>v \<in> set ns. v |\<in>| fmdom adj \<longrightarrow> reached (dijkstra_relax u ns st) v)) \<and>
         (\<forall>v d. fmlookup (dj_dist st) v = Some d \<and> d \<noteq> INF_int \<longrightarrow>
            fmlookup (dj_dist (dijkstra_relax u ns st)) v = Some d) \<and>
         dj_measure (dijkstra_relax u ns st) \<le> dj_measure st"
  using assms
proof (induction ns arbitrary: st)
  case Nil
  then show ?case by simp
next
  case (Cons nb ns)
  from Cons.prems(1) have du: "fmlookup (dj_dist st) u = Some (int k)"
    and dom: "fmdom (dj_dist st) = fmdom adj" and kI: "int k < INF_int"
    and vals: "\<And>v d. fmlookup (dj_dist st) v = Some d \<Longrightarrow>
        d = INF_int \<or> (0 \<le> d \<and> d \<le> int k + 1 \<and> d < INF_int \<and> shortest adj s v (nat d))"
    unfolding dj_mid_def by blast+
  have ix: "index_default 0 (dj_dist st) u = (int k, dj_dist st)"
    using du by (rule index_default_Some)
  have nbrs: "nb |\<in>| neighbors adj u" "\<forall>v \<in> set ns. v |\<in>| neighbors adj u"
    using Cons.prems(2) by simp_all
  show ?case
  proof (cases "fmlookup (dj_dist st) nb")
    case None
    then have res: "dijkstra_relax u (nb # ns) st = dijkstra_relax u ns st" by simp
    have "nb |\<notin>| fmdom adj" using None dom by (metis fmdom_notI)
    with Cons.IH[OF Cons.prems(1) nbrs(2)] show ?thesis unfolding res by auto
  next
    case (Some dv)
    have ixv: "fst (index_default 0 (dj_dist st) nb) = dv"
      using Some by (simp add: index_default_Some)
    show ?thesis
    proof (cases "dv = INF_int \<and> int k + 1 < INF_int")
      case True
      define st1 where "st1 = st\<lparr>dj_pq := pq_push (int k + 1, nb) (dj_pq st),
                       dj_parent := fmupd nb u (dj_parent st),
                       dj_dist := fmupd nb (int k + 1) (dj_dist st)\<rparr>"
      have res: "dijkstra_relax u (nb # ns) st = dijkstra_relax u ns st1"
        using Some ix ixv True kI by (simp add: st1_def)
      have nbI: "fmlookup (dj_dist st) nb = Some INF_int" using Some True by simp
      have mid1: "dj_mid adj s e u k st1"
        unfolding st1_def using True by (intro dj_mid_relax[OF Cons.prems(1) nbI nbrs(1)]) simp
      note IH = Cons.IH[OF mid1 nbrs(2)]
      have m1: "Suc (dj_measure st1) = dj_measure st"
        using far_card[OF nbI, of "int k + 1"] True
        unfolding dj_measure_def st1_def by (simp add: pq_push_def)
      have nb1: "fmlookup (dj_dist st1) nb = Some (int k + 1)" by (simp add: st1_def)
      have keep1: "fmlookup (dj_dist st1) v = Some d"
        if "fmlookup (dj_dist st) v = Some d" "d \<noteq> INF_int" for v d
        using that nbI by (auto simp: st1_def)
      have "int k + 1 \<noteq> INF_int" using True by simp
      with IH nb1 have "fmlookup (dj_dist (dijkstra_relax u ns st1)) nb = Some (int k + 1)"
        by blast
      with \<open>int k + 1 \<noteq> INF_int\<close> have "reached (dijkstra_relax u ns st1) nb"
        unfolding reached_def by blast
      with IH m1 keep1 show ?thesis unfolding res by auto
    next
      case False
      have "\<not> (int k + 1 < dv)"
        using vals[OF Some] False by auto
      then have res: "dijkstra_relax u (nb # ns) st = dijkstra_relax u ns st"
        using Some ix ixv by simp
      note IH = Cons.IH[OF Cons.prems(1) nbrs(2)]
      have "reached (dijkstra_relax u ns st) nb" if "int k + 1 < INF_int"
      proof -
        from that False have "dv \<noteq> INF_int" by simp
        with IH Some have "fmlookup (dj_dist (dijkstra_relax u ns st)) nb = Some dv" by blast
        with \<open>dv \<noteq> INF_int\<close> show ?thesis unfolding reached_def by blast
      qed
      with IH show ?thesis unfolding res by auto
    qed
  qed
qed

subsection \<open>Dijkstra: the while loop\<close>

lemma dj_mid_advance:
  assumes mid: "dj_mid adj s e u k st"
    and ne: "u \<noteq> e"
    and all: "int k + 1 < INF_int \<longrightarrow>
                (\<forall>v. v |\<in>| neighbors adj u \<and> v |\<in>| fmdom adj \<longrightarrow> reached st v)"
  shows "dj_inv adj s e st"
proof -
  from mid have adj: "dj_adj st = adj" and dom: "fmdom (dj_dist st) = fmdom adj"
    and nf: "\<not> dj_found st" and dm: "dj_finalDistance st = - 1" and kI: "int k < INF_int"
    and vals: "\<And>v d. fmlookup (dj_dist st) v = Some d \<Longrightarrow>
        d = INF_int \<or> (0 \<le> d \<and> d \<le> int k + 1 \<and> d < INF_int \<and> shortest adj s v (nat d))"
    and du: "fmlookup (dj_dist st) u = Some (int k)"
    and qs: "\<And>x. x \<in> set (dj_pq st) \<Longrightarrow>
        fmlookup (dj_dist st) (snd x) = Some (fst x) \<and> int k \<le> fst x \<and> fst x < INF_int"
    and dis: "distinct (dj_pq st)"
    and proc: "\<And>w dw v. fmlookup (dj_dist st) w = Some dw \<Longrightarrow> dw + 1 < INF_int \<Longrightarrow>
        (dw, w) \<notin> set (dj_pq st) \<Longrightarrow> w \<noteq> u \<Longrightarrow> edge adj w v \<Longrightarrow> reached st v"
    and near: "\<And>v m. walk adj s m v \<Longrightarrow> m \<le> k \<Longrightarrow> reached st v"
    and de: "\<And>d. fmlookup (dj_dist st) e = Some d \<Longrightarrow> d \<noteq> INF_int \<Longrightarrow> (d, e) \<in> set (dj_pq st) \<or> e = u"
    and chain: "parent_chain (dj_parent st) (dj_dist st) INF_int"
    unfolding dj_mid_def by blast+
  have done_u: "reached st v" if "edge adj u v" "int k + 1 < INF_int" for v
    using all that by (simp add: edge_def)
  have closure: "reached st v"
    if "fmlookup (dj_dist st) w = Some dw" "dw + 1 < INF_int" "(dw, w) \<notin> set (dj_pq st)"
       "edge adj w v" for w dw v
  proof (cases "w = u")
    case True
    with that(1) du have "dw = int k" by simp
    with that(2,4) True show ?thesis by (simp add: done_u)
  next
    case False
    show ?thesis by (rule proc[OF that(1,2,3) False that(4)])
  qed
  show ?thesis
  proof (cases "dj_pq st = []")
    case True
    have "\<not> reached st e" using de ne True by (auto simp: reached_def)
    moreover have "reached st s" using near[of 0 s] by simp
    moreover have "0 \<le> d \<and> shortest adj s v (nat d)"
      if "fmlookup (dj_dist st) v = Some d" "d \<noteq> INF_int" for v d
      using vals[OF that(1)] that(2) by simp
    moreover have "reached st v"
      if "fmlookup (dj_dist st) w = Some dw" "dw + 1 < INF_int" "edge adj w v" for w dw v
      using closure[OF that(1,2) _ that(3)] True by simp
    ultimately have "dj_done adj s e st"
      unfolding dj_done_def using adj nf dm by blast
    then show ?thesis by (simp add: dj_inv_def True)
  next
    case False
    define top where "top = pq_top (dj_pq st)"
    define pq' where "pq' = pq_pop (dj_pq st)"
    have top_in: "top \<in> set (dj_pq st)" using False by (simp add: top_def pq_top_in)
    have set': "set pq' = set (dj_pq st) - {top}"
      using dis by (simp add: pq'_def pq_pop_def top_def)
    obtain d u' where top: "top = (d, u')" by (cases top)
    from qs[OF top_in] top have d: "fmlookup (dj_dist st) u' = Some d" "int k \<le> d" "d < INF_int"
      by simp_all
    with vals[OF d(1)] have dle: "d \<le> int k + 1" by auto
    define k' where "k' = nat d"
    have k': "int k' = d" "k \<le> k'" "k' \<le> Suc k" using d(2) dle by (simp_all add: k'_def)
    have least: "d \<le> fst x" if "x \<in> set (dj_pq st)" for x
      using pq_top_least[OF that] top by (simp add: top_def)
    let ?st = "st\<lparr>dj_pq := pq'\<rparr>"
    have c3: "dv = INF_int \<or> (0 \<le> dv \<and> dv \<le> int k' + 1 \<and> dv < INF_int \<and> shortest adj s v (nat dv))"
      if "fmlookup (dj_dist st) v = Some dv" for v dv
      using vals[OF that] k' by auto
    have c5: "fmlookup (dj_dist st) (snd x) = Some (fst x) \<and> int k' \<le> fst x \<and> fst x < INF_int"
      if "x \<in> set pq'" for x
    proof -
      from that set' have x: "x \<in> set (dj_pq st)" by simp
      from qs[OF x] least[OF x] k' show ?thesis by simp
    qed
    have c6: "distinct pq'" using dis by (simp add: pq'_def pq_pop_def)
    have c7: "reached st v"
      if "fmlookup (dj_dist st) w = Some dw" "dw + 1 < INF_int" "(dw, w) \<notin> set pq'"
         "w \<noteq> u'" "edge adj w v" for w dw v
    proof -
      from that(3,4) set' top have "(dw, w) \<notin> set (dj_pq st)" by auto
      from closure[OF that(1,2) this that(5)] show ?thesis .
    qed
    have c8: "reached st v" if w: "walk adj s m v" "m \<le> k'" for v m
    proof (cases "m \<le> k")
      case True
      with near[OF w(1)] show ?thesis .
    next
      case F: False
      with w(2) k' have m: "m = Suc k" "k' = Suc k" by simp_all
      from w(1) m obtain w' where w': "walk adj s k w'" "edge adj w' v"
        by (auto simp: walk_Suc_iff)
      from near[OF w'(1)] obtain dw where dw: "fmlookup (dj_dist st) w' = Some dw" "dw \<noteq> INF_int"
        by (auto simp: reached_def)
      with vals[OF dw(1)] have "shortest adj s w' (nat dw)" "0 \<le> dw" by auto
      with w'(1) have "nat dw \<le> k" by (simp add: shortest_def)
      with \<open>0 \<le> dw\<close> have lt: "dw < d" using k' m by linarith
      with d(3) have small: "dw + 1 < INF_int" by simp
      have "(dw, w') \<notin> set (dj_pq st)"
      proof
        assume "(dw, w') \<in> set (dj_pq st)"
        from least[OF this] lt show False by simp
      qed
      from closure[OF dw(1) small this w'(2)] show ?thesis .
    qed
    have c9: "(d', e) \<in> set pq' \<or> e = u'"
      if "fmlookup (dj_dist st) e = Some d'" "d' \<noteq> INF_int" for d'
      using de[OF that] ne set' top by auto
    have "dj_mid adj s e u' k' ?st"
      unfolding dj_mid_def
      using adj dom nf dm c3 d(1,3) k'(1) c5 c6 c7 c8 c9 chain
      by simp blast
    then show ?thesis
      unfolding dj_inv_def using False top k'(1) by (auto simp: top_def[symmetric] pq'_def[symmetric])
  qed
qed

lemma dj_loop_correct:
  assumes "dj_inv adj s e st"
  shows "\<exists>st'. dijkstra_loop e st = Some (Inr st') \<and> (dj_post adj s e st' \<or> dj_done adj s e st')"
  using assms
proof (induction "dj_measure st" arbitrary: st rule: less_induct)
  case less
  show ?case
  proof (cases "dj_pq st = []")
    case True
    with less.prems have "dj_done adj s e st" by (simp add: dj_inv_def)
    moreover have "dijkstra_loop e st = Some (Inr st)" using True by (subst dijkstra_loop.simps) simp
    ultimately show ?thesis by blast
  next
    case False
    define u where "u = snd (pq_top (dj_pq st))"
    define st1 where "st1 = st\<lparr>dj_pq := pq_pop (dj_pq st)\<rparr>"
    from less.prems False obtain k where k: "fst (pq_top (dj_pq st)) = int k"
      and mid: "dj_mid adj s e u k st1"
      by (auto simp: dj_inv_def st1_def u_def)
    from mid have adj1: "dj_adj st1 = adj" and du: "fmlookup (dj_dist st1) u = Some (int k)"
      and dom: "fmdom (dj_dist st1) = fmdom adj" and kI: "int k < INF_int"
      and vals: "\<And>v d. fmlookup (dj_dist st1) v = Some d \<Longrightarrow>
        d = INF_int \<or> (0 \<le> d \<and> d \<le> int k + 1 \<and> d < INF_int \<and> shortest adj s v (nat d))"
      and chain: "parent_chain (dj_parent st1) (dj_dist st1) INF_int"
      unfolding dj_mid_def by blast+
    have du0: "fmlookup (dj_dist st) u = Some (int k)" using du by (simp add: st1_def)
    have ix: "index_default 0 (dj_dist st) u = (int k, dj_dist st)"
      using du0 by (rule index_default_Some)
    have st1': "st\<lparr>dj_pq := pq_pop (dj_pq st)\<rparr> = st1" "st1\<lparr>dj_dist := dj_dist st\<rparr> = st1"
      by (simp_all add: st1_def)
    show ?thesis
    proof (cases "u = e")
      case True
      define st2 where "st2 = st1\<lparr>dj_found := True, dj_finalDistance := int k\<rparr>"
      have res: "dijkstra_loop e st = Some (Inr st2)"
        using False k ix True st1'
        by (subst dijkstra_loop.simps) (simp add: u_def[symmetric] Let_def st2_def)
      have "shortest adj s e k" using vals[OF du] kI True by simp
      moreover have "d \<le> INF_int" if "fmlookup (dj_dist st1) v = Some d" for v d
        using vals[OF that] by auto
      ultimately have "dj_post adj s e st2"
        unfolding dj_post_def st2_def using adj1 du True kI chain by auto
      with res show ?thesis by blast
    next
      case ne: False
      have "u |\<in>| fmdom adj" using du dom by (metis fmdomI)
      then obtain friends where fr: "fmlookup adj u = Some friends"
        by (auto simp: fmlookup_dom_iff)
      define st2 where "st2 = dijkstra_relax u (sorted_list_of_fset friends) st1"
      have unfold: "dijkstra_loop e st = dijkstra_loop e st2"
        using False k ix ne st1' fr adj1
        by (subst dijkstra_loop.simps) (simp add: u_def[symmetric] Let_def st2_def)
      have nb: "\<forall>v \<in> set (sorted_list_of_fset friends). v |\<in>| neighbors adj u"
        using fr by simp
      note rel = dj_relax_inv[OF mid nb, folded st2_def]
      then have mid2: "dj_mid adj s e u k st2" and m: "dj_measure st2 \<le> dj_measure st1"
        and all: "int k + 1 < INF_int \<longrightarrow>
           (\<forall>v \<in> set (sorted_list_of_fset friends). v |\<in>| fmdom adj \<longrightarrow> reached st2 v)"
        by blast+
      have "dj_inv adj s e st2"
        using all fr by (intro dj_mid_advance[OF mid2 ne]) simp
      moreover have "dj_measure st1 < dj_measure st"
        using False pq_top_in[OF False]
        by (simp add: dj_measure_def st1_def pq_pop_def length_remove1)
      ultimately show ?thesis
        unfolding unfold using less.hyps[of st2] m by simp
    qed
  qed
qed

lemma dj_done_unreachable:
  assumes "dj_done adj s e st" "walk adj s n e"
  shows "INF_int \<le> int n"
proof (rule ccontr)
  assume "\<not> INF_int \<le> int n"
  then have n: "int n < INF_int" by simp
  have "reached st v" if "walk adj s m v" "int m < INF_int" for m v
    using that
  proof (induction rule: walk.induct)
    case walk_start
    then show ?case using assms(1) by (simp add: dj_done_def)
  next
    case (walk_step m u v)
    then have "reached st u" by simp
    then obtain du where du: "fmlookup (dj_dist st) u = Some du" "du \<noteq> INF_int"
      by (auto simp: reached_def)
    with assms(1) have "0 \<le> du" "shortest adj s u (nat du)" by (auto simp: dj_done_def)
    with walk_step(1) have "nat du \<le> m" by (simp add: shortest_def)
    with \<open>0 \<le> du\<close> walk_step(4) have "du + 1 < INF_int" by simp
    with assms(1) du(1) walk_step(2) show ?case unfolding dj_done_def by blast
  qed
  from this[OF assms(2) n] assms(1) show False by (simp add: dj_done_def)
qed

lemma dijkstra_path_terminates:
  assumes "parent_chain parent dist INF_int" "fmlookup dist c = Some d" "0 \<le> d" "d < INF_int"
  shows "\<exists>p. dijkstra_path parent c path = Some p"
  using assms(2,3,4)
proof (induction "nat d" arbitrary: c d path rule: less_induct)
  case less
  show ?case
  proof (cases "c = []")
    case True
    then show ?thesis by (subst dijkstra_path.simps) simp
  next
    case nonempty: False
    show ?thesis
    proof (cases "d = 0")
      case True
      with less.prems assms(1) have "fmlookup parent c = Some []"
        by (simp add: parent_chain_def)
      then show ?thesis using nonempty by (subst dijkstra_path.simps) simp
    next
      case False
      with less.prems have "fmlookup dist c = Some d \<and> 0 < d \<and> d \<noteq> INF_int" by simp
      with assms(1) obtain p where p: "fmlookup parent c = Some p"
          "fmlookup dist p = Some (d - 1)"
        unfolding parent_chain_def by blast
      show ?thesis
      proof (cases "p = []")
        case True
        then show ?thesis using nonempty p(1) by (subst dijkstra_path.simps) simp
      next
        case F2: False
        have "dijkstra_path parent c path = dijkstra_path parent p (c # path)"
          using nonempty p(1) F2 by (subst dijkstra_path.simps) simp
        moreover have "\<exists>q. dijkstra_path parent p (c # path) = Some q"
          using False less.prems by (intro less.hyps[OF _ p(2)]) simp_all
        ultimately show ?thesis by simp
      qed
    qed
  qed
qed

subsection \<open>Dijkstra: the method\<close>

lemma dijkstra_init_dist:
  "fmlookup (dj_dist (dijkstra_init ks st)) v =
     (if v \<in> set ks then Some INF_int else fmlookup (dj_dist st) v)"
  by (induction ks arbitrary: st) auto

lemma dijkstra_init_parent:
  "fmlookup (dj_parent (dijkstra_init ks st)) v =
     (if v \<in> set ks then Some [] else fmlookup (dj_parent st) v)"
  by (induction ks arbitrary: st) auto

lemma dijkstra_init_rest:
  "dj_adj (dijkstra_init ks st) = dj_adj st \<and> dj_pq (dijkstra_init ks st) = dj_pq st \<and>
   dj_found (dijkstra_init ks st) = dj_found st \<and>
   dj_finalDistance (dijkstra_init ks st) = dj_finalDistance st"
  by (induction ks arbitrary: st) auto

lemma dijkstra_start_fields:
  "dj_adj (dijkstra_start adj s) = adj" "dj_pq (dijkstra_start adj s) = [(0, s)]"
  "\<not> dj_found (dijkstra_start adj s)" "dj_finalDistance (dijkstra_start adj s) = - 1"
  "fmlookup (dj_dist (dijkstra_start adj s)) v =
     (if v = s then Some 0 else if v |\<in>| fmdom adj then Some INF_int else None)"
  "fmlookup (dj_parent (dijkstra_start adj s)) v = (if v |\<in>| fmdom adj then Some [] else None)"
  by (simp_all add: dijkstra_start_def Let_def dijkstra_init_rest dijkstra_init_dist
        dijkstra_init_parent pq_push_def)

lemma dijkstra_start_inv:
  assumes "s |\<in>| fmdom adj" "e |\<in>| fmdom adj" "s \<noteq> e"
  shows "dj_inv adj s e (dijkstra_start adj s)"
proof -
  let ?st = "(dijkstra_start adj s)\<lparr>dj_pq := []\<rparr>"
  have dom: "fmdom (dj_dist ?st) = fmdom adj"
    using assms(1)
    by (auto simp: fmlookup_dom_iff dijkstra_start_fields split: if_splits intro!: fset_eqI)
  have r: "reached (dijkstra_start adj s) v \<longleftrightarrow> v = s" for v
    by (auto simp: reached_def dijkstra_start_fields INF_int_def)
  have "dj_mid adj s e s 0 ?st"
    unfolding dj_mid_def parent_chain_def
    using assms dom
    by (auto simp: dijkstra_start_fields r shortest_start INF_int_def split: if_splits)
  then show ?thesis
    by (auto simp: dj_inv_def dijkstra_start_fields pq_top_def pq_pop_def intro: exI[of _ 0])
qed

lemma shortestPathDijkstra_self:
  "s |\<in>| fmdom adj \<Longrightarrow> shortestPathDijkstra adj s s = Some (Inr ((0, [s]), None, adj))"
  by (auto simp: shortestPathDijkstra_def fmlookup_dom_iff)

lemma shortestPathDijkstra_result:
  assumes "s |\<in>| fmdom adj" "e |\<in>| fmdom adj" "s \<noteq> e"
  shows "(\<exists>n p. shortestPathDijkstra adj s e = Some (Inr ((int n, p), None, adj)) \<and>
            shortest adj s e n \<and> int n < INF_int) \<or>
         (shortestPathDijkstra adj s e
            = Some (Inr ((- 1, []), Some (NoPathFound Dijkstra s e), adj)) \<and>
          (\<forall>n. walk adj s n e \<longrightarrow> INF_int \<le> int n))"
proof -
  from dj_loop_correct[OF dijkstra_start_inv[OF assms]]
  obtain st where st: "dijkstra_loop e (dijkstra_start adj s) = Some (Inr st)"
    and fin: "dj_post adj s e st \<or> dj_done adj s e st" by blast
  have sp: "shortestPathDijkstra adj s e =
      (if dj_found st then
         (case dijkstra_path (dj_parent st) e [] of
            None \<Rightarrow> None
          | Some path \<Rightarrow> Some (Inr ((dj_finalDistance st, path), None, dj_adj st)))
       else Some (Inr ((dj_finalDistance st, []), Some (NoPathFound Dijkstra s e), dj_adj st)))"
    using assms st unfolding shortestPathDijkstra_def
    by (auto simp: fmlookup_dom_iff)
  from fin show ?thesis
  proof
    assume post: "dj_post adj s e st"
    then obtain n where n: "dj_finalDistance st = int n" "shortest adj s e n"
        "fmlookup (dj_dist st) e = Some (int n)" "int n < INF_int"
      and chain: "parent_chain (dj_parent st) (dj_dist st) INF_int"
      and f: "dj_found st" "dj_adj st = adj"
      unfolding dj_post_def by blast
    from dijkstra_path_terminates[OF chain n(3) _ n(4), of "[]"] obtain p
      where "dijkstra_path (dj_parent st) e [] = Some p" by auto
    with sp f n show ?thesis by auto
  next
    assume dn: "dj_done adj s e st"
    then have "\<not> dj_found st" "dj_finalDistance st = - 1" "dj_adj st = adj"
      by (simp_all add: dj_done_def)
    with sp dj_done_unreachable[OF dn] show ?thesis by auto
  qed
qed

subsection \<open>Where the two searches agree\<close>

text \<open>
  Dijkstra's algorithm marks an unreached user by the distance \<^verbatim>\<open>INF\<close> \<open>= INT_MAX\<close>; while
  the least number of edges from \<open>s\<close> to \<open>e\<close> is below that, or there is no walk, the two
  searches return the same distance.
\<close>

lemma searches_agree:
  assumes "s |\<in>| fmdom adj" "e |\<in>| fmdom adj"
    and "\<forall>n. shortest adj s e n \<longrightarrow> int n < INF_int"
  shows "\<exists>d p p' m m'. shortestPathBFS adj s e = Some (Inr ((d, p), m, adj)) \<and>
           shortestPathDijkstra adj s e = Some (Inr ((d, p'), m', adj))"
proof (cases "s = e")
  case True
  with shortestPathBFS_self[OF assms(1)] shortestPathDijkstra_self[OF assms(1)]
  show ?thesis by simp
next
  case False
  show ?thesis
  proof (cases "\<exists>n. walk adj s n e")
    case True
    then obtain n where n: "shortest adj s e n" using walk_exists_shortest by blast
    with assms(3) have nI: "int n < INF_int" by simp
    then have "int n \<le> INT_MAX" by (simp add: INF_int_def INT_MAX_def)
    from shortestPathBFS_exact[OF assms(1,2) False n this]
    obtain p where b: "shortestPathBFS adj s e = Some (Inr ((int n, p), None, adj))" by blast
    from n have w: "walk adj s n e" by (simp add: shortest_def)
    from shortestPathDijkstra_result[OF assms(1,2) False] w nI
    obtain n' p' where d: "shortestPathDijkstra adj s e = Some (Inr ((int n', p'), None, adj))"
      and n': "shortest adj s e n'" by fastforce
    from shortest_unique[OF n n'] b d show ?thesis by simp
  next
    case nw: False
    then have "\<forall>n. \<not> walk adj s n e" by simp
    from shortestPathBFS_no_walk[OF assms(1,2) False this]
    have b: "shortestPathBFS adj s e = Some (Inr ((- 1, []), Some (NoPathFound BFS s e), adj))" .
    from shortestPathDijkstra_result[OF assms(1,2) False] nw
    have "shortestPathDijkstra adj s e = Some (Inr ((- 1, []), Some (NoPathFound Dijkstra s e), adj))"
      by (auto simp: shortest_def)
    with b show ?thesis by simp
  qed
qed

subsection \<open>Paths and walks\<close>

text \<open>
  In a graph whose friend sets hold users only (\<open>closed\<close>), the paths between two users
  are the walks, so a shortest walk has the least number of edges of a path.
\<close>

lemma is_path_snoc:
  "p \<noteq> [] \<Longrightarrow> is_path adj (p @ [v]) \<longleftrightarrow> is_path adj p \<and> v |\<in>| neighbors adj (last p)"
  by (induction adj p rule: is_path.induct) auto

lemma walk_imp_path:
  "walk adj s n e \<Longrightarrow> \<exists>p. path_between adj s e p \<and> length p = Suc n"
proof (induction rule: walk.induct)
  case walk_start
  have "path_between adj s s [s]" by (simp add: path_between_def)
  then show ?case by (intro exI[of _ "[s]"]) simp
next
  case (walk_step n u v)
  then obtain p where p: "path_between adj s u p" "length p = Suc n" by blast
  then have ne: "p \<noteq> []" by auto
  with p(1) walk_step(2) have "path_between adj s v (p @ [v])"
    by (simp add: path_between_def is_path_snoc edge_def)
  with p(2) show ?case by (intro exI[of _ "p @ [v]"]) simp
qed

lemma path_imp_walk:
  assumes "closed adj"
  shows "is_path adj p \<Longrightarrow> walk adj (hd p) (length p - 1) (last p)"
proof (induction p rule: rev_induct)
  case Nil
  then show ?case by simp
next
  case (snoc v p)
  show ?case
  proof (cases "p = []")
    case True
    then show ?thesis by simp
  next
    case False
    with snoc.prems have p: "is_path adj p" "v |\<in>| neighbors adj (last p)"
      by (simp_all add: is_path_snoc)
    with assms have "edge adj (last p) v" by (auto simp: edge_def closed_iff)
    with snoc.IH[OF p(1)] have "walk adj (hd p) (Suc (length p - 1)) v" by (rule walk_step)
    with False show ?thesis by simp
  qed
qed

lemma connected_imp_walk:
  assumes "closed adj" "connected adj s e"
  shows "\<exists>n. walk adj s n e"
proof -
  from assms(2) obtain p where "is_path adj p" "hd p = s" "last p = e"
    by (auto simp: connected_def path_between_def)
  with path_imp_walk[OF assms(1), of p] show ?thesis by auto
qed

lemma walk_imp_connected: "walk adj s n e \<Longrightarrow> connected adj s e"
  using walk_imp_path[of adj s n e] by (auto simp: connected_def)

lemma shortest_imp_min_edges:
  assumes "closed adj" "shortest adj s e n"
  shows "min_edges adj s e n"
proof -
  from assms(2) have w: "walk adj s n e" and least: "\<And>m. walk adj s m e \<Longrightarrow> n \<le> m"
    by (simp_all add: shortest_def)
  have "Suc n \<le> length p" if "path_between adj s e p" for p
  proof -
    from that have p: "is_path adj p" "hd p = s" "last p = e" by (simp_all add: path_between_def)
    from path_imp_walk[OF assms(1) p(1)] p(2,3) have "n \<le> length p - 1" by (auto intro: least)
    moreover from p(1) have "p \<noteq> []" by auto
    ultimately show ?thesis by (cases p) simp_all
  qed
  with walk_imp_path[OF w] show ?thesis by (simp add: min_edges_def)
qed

lemma walk_in_dom: "walk adj s n v \<Longrightarrow> s |\<in>| fmdom adj \<Longrightarrow> v |\<in>| fmdom adj"
  by (induction rule: walk.induct) (auto simp: edge_def)

subsection \<open>A shortest walk visits distinct users\<close>

lemma shortest_pred:
  assumes "shortest adj s v (Suc i)"
  shows "\<exists>u. shortest adj s u i \<and> edge adj u v"
proof -
  from assms obtain u where u: "walk adj s i u" "edge adj u v"
    by (auto simp: shortest_def walk_Suc_iff)
  have "i \<le> m" if "walk adj s m u" for m
  proof -
    from that u(2) have "walk adj s (Suc m) v" by (rule walk_step)
    with assms show ?thesis by (auto simp: shortest_def)
  qed
  with u show ?thesis by (auto simp: shortest_def)
qed

lemma shortest_levels:
  "shortest adj s e n \<Longrightarrow> i \<le> n \<Longrightarrow> \<exists>v. shortest adj s v i"
proof (induction n arbitrary: e)
  case 0
  then show ?case by auto
next
  case (Suc n)
  show ?case
  proof (cases "i = Suc n")
    case True
    with Suc.prems show ?thesis by auto
  next
    case False
    with Suc.prems have "i \<le> n" by simp
    moreover from shortest_pred[OF Suc.prems(1)] obtain u where "shortest adj s u n" by blast
    ultimately show ?thesis by (rule Suc.IH[rotated])
  qed
qed

lemma shortest_less_users:
  assumes "shortest adj s e n" "s |\<in>| fmdom adj"
  shows "n < fcard (fmdom adj)"
proof -
  define f where "f i = (SOME v. shortest adj s v i)" for i
  have f: "shortest adj s (f i) i" if "i \<le> n" for i
    unfolding f_def using shortest_levels[OF assms(1) that] by (rule someI_ex)
  have "inj_on f {..n}"
  proof (rule inj_onI)
    fix i j assume ij: "i \<in> {..n}" "j \<in> {..n}" "f i = f j"
    have a: "shortest adj s (f i) i" using f[of i] ij(1) by simp
    have "shortest adj s (f j) j" using f[of j] ij(2) by simp
    then have b: "shortest adj s (f i) j" by (simp only: ij(3))
    show "i = j" by (rule shortest_unique[OF a b])
  qed
  moreover have "f ` {..n} \<subseteq> fset (fmdom adj)"
  proof
    fix v assume "v \<in> f ` {..n}"
    then obtain i where "i \<le> n" "v = f i" by auto
    with f[of i] have "walk adj s i v" by (simp add: shortest_def)
    from walk_in_dom[OF this assms(2)] show "v \<in> fset (fmdom adj)" by simp
  qed
  ultimately have "card {..n} \<le> card (fset (fmdom adj))"
    by (intro card_inj_on_le) auto
  then show ?thesis by (simp add: fcard.rep_eq)
qed

subsection \<open>The sample network\<close>

lemma connected_self: "connected adj s s"
  by (auto simp: connected_def path_between_def intro: exI[of _ "[s]"])

lemma sample_reachable: "reachable (run sample_calls)"
  by (rule reachable_run)

lemma sample_users:
  "''Alice'' |\<in>| fmdom (run sample_calls)" "''Eve'' |\<in>| fmdom (run sample_calls)"
  "''Grace'' |\<in>| fmdom (run sample_calls)" "''Heidi'' |\<in>| fmdom (run sample_calls)"
  by code_simp+

lemma min_edges_shortest:
  assumes "closed adj" "min_edges adj s e n"
  shows "shortest adj s e n"
proof -
  from assms(2) obtain p where p: "is_path adj p" "hd p = s" "last p = e" "length p = Suc n"
    and least: "\<And>q. path_between adj s e q \<Longrightarrow> Suc n \<le> length q"
    by (auto simp: min_edges_def path_between_def)
  from path_imp_walk[OF assms(1) p(1)] p(2-4) have "walk adj s n e" by simp
  moreover have "n \<le> m" if "walk adj s m e" for m
  proof -
    from walk_imp_path[OF that] obtain q where "path_between adj s e q" "length q = Suc m"
      by blast
    with least[of q] show ?thesis by simp
  qed
  ultimately show ?thesis by (simp add: shortest_def)
qed

lemma min_edges_less_users:
  assumes "closed adj" "s |\<in>| fmdom adj" "min_edges adj s e n"
  shows "n < fcard (fmdom adj)"
  using shortest_less_users[OF min_edges_shortest[OF assms(1,3)] assms(2)] .

lemma not_connected_by_search:
  assumes "closed adj" "s |\<in>| fmdom adj" "e |\<in>| fmdom adj" "s \<noteq> e"
    and "int (fcard (fmdom adj)) \<le> INT_MAX"
    and "shortestPathBFS adj s e = Some (Inr ((- 1, p), m, adj'))"
  shows "\<not> connected adj s e"
proof
  assume "connected adj s e"
  from connected_imp_walk[OF assms(1) this] obtain n where n: "shortest adj s e n"
    using walk_exists_shortest by blast
  from shortest_less_users[OF n assms(2)] assms(5) have "int n \<le> INT_MAX" by simp
  from shortestPathBFS_exact[OF assms(2-4) n this] assms(6) show False by auto
qed

subsection \<open>Friend suggestions\<close>

text \<open>
  The count stored for a candidate is the number of direct friends that have it as a
  friend, reduced to 32 bits; a candidate has an entry as soon as one friend has it.
\<close>

lemma count_of_increment:
  "count_of (increment m k) c = (if c = k then int32 (count_of m c + 1) else count_of m c)"
  by (auto simp: count_of_def increment_def index_default_def split: option.splits)

lemma fmdom_increment: "fmdom (increment m k) = finsert k (fmdom m)"
  by (auto simp: increment_def index_default_def split: option.splits)

lemma suggest_inner_spec:
  assumes "distinct pfs"
  shows "sg_adj (suggest_inner u D pfs st) = sg_adj st \<and>
         (\<forall>c. c |\<in>| fmdom (sg_counts (suggest_inner u D pfs st)) \<longleftrightarrow>
               c |\<in>| fmdom (sg_counts st) \<or> (c \<in> set pfs \<and> candidate (sg_adj st) u D c)) \<and>
         (\<forall>c n. count_of (sg_counts st) c = int32 n \<longrightarrow>
               count_of (sg_counts (suggest_inner u D pfs st)) c =
               int32 (n + (if c \<in> set pfs \<and> candidate (sg_adj st) u D c then 1 else 0)))"
  using assms
proof (induction pfs arbitrary: st)
  case Nil
  then show ?case by simp
next
  case (Cons pf pfs)
  define st1 where "st1 =
       (if pf \<noteq> u \<and> pf |\<notin>| D then
          (if fmlookup (sg_adj st) pf \<noteq> None then
             st\<lparr>sg_counts := increment (sg_counts st) pf\<rparr>
           else st)
        else st)"
  have res: "suggest_inner u D (pf # pfs) st = suggest_inner u D pfs st1"
    by (simp add: st1_def)
  have adj1: "sg_adj st1 = sg_adj st" by (simp add: st1_def)
  have cand: "candidate (sg_adj st) u D pf \<longleftrightarrow>
      pf \<noteq> u \<and> pf |\<notin>| D \<and> fmlookup (sg_adj st) pf \<noteq> None"
    by (auto simp: candidate_def fmlookup_dom_iff)
  have st1: "st1 = (if candidate (sg_adj st) u D pf
                    then st\<lparr>sg_counts := increment (sg_counts st) pf\<rparr> else st)"
    unfolding cand by (auto simp: st1_def)
  have dom1: "c |\<in>| fmdom (sg_counts st1) \<longleftrightarrow>
      c |\<in>| fmdom (sg_counts st) \<or> (c = pf \<and> candidate (sg_adj st) u D c)" for c
    by (cases "candidate (sg_adj st) u D pf") (auto simp: st1 fmdom_increment)
  have cnt1: "count_of (sg_counts st1) c =
      int32 (n + (if c = pf \<and> candidate (sg_adj st) u D c then 1 else 0))"
    if "count_of (sg_counts st) c = int32 n" for c n
    using that int32_add_1[of n]
    by (cases "candidate (sg_adj st) u D pf") (auto simp: st1 count_of_increment)
  from Cons.prems have d: "distinct pfs" "pf \<notin> set pfs" by simp_all
  note IH = Cons.IH[OF d(1), of st1]
  have "c |\<in>| fmdom (sg_counts (suggest_inner u D pfs st1)) \<longleftrightarrow>
        c |\<in>| fmdom (sg_counts st) \<or> (c \<in> set (pf # pfs) \<and> candidate (sg_adj st) u D c)" for c
    using IH dom1[of c] adj1 by auto
  moreover have "count_of (sg_counts (suggest_inner u D pfs st1)) c =
        int32 (n + (if c \<in> set (pf # pfs) \<and> candidate (sg_adj st) u D c then 1 else 0))"
    if "count_of (sg_counts st) c = int32 n" for c n
  proof -
    let ?a = "if c = pf \<and> candidate (sg_adj st) u D c then 1 else 0 :: int"
    let ?b = "if c \<in> set pfs \<and> candidate (sg_adj st) u D c then 1 else 0 :: int"
    from cnt1[OF that] IH adj1
    have "count_of (sg_counts (suggest_inner u D pfs st1)) c = int32 (n + ?a + ?b)"
      by simp
    moreover have "?a + ?b = (if c \<in> set (pf # pfs) \<and> candidate (sg_adj st) u D c then 1 else 0)"
      using d(2) by auto
    ultimately show ?thesis by (simp add: add.assoc)
  qed
  ultimately show ?case unfolding res using IH adj1 by simp
qed

lemma suggest_outer_spec:
  assumes "distinct fs"
  shows "sg_adj (suggest_outer u D fs st) = sg_adj st \<and>
         (\<forall>c. c |\<in>| fmdom (sg_counts (suggest_outer u D fs st)) \<longleftrightarrow>
               c |\<in>| fmdom (sg_counts st) \<or>
               (candidate (sg_adj st) u D c \<and> (\<exists>f \<in> set fs. c |\<in>| neighbors (sg_adj st) f))) \<and>
         (\<forall>c n. count_of (sg_counts st) c = int32 n \<longrightarrow>
               count_of (sg_counts (suggest_outer u D fs st)) c =
               int32 (n + (if candidate (sg_adj st) u D c
                           then int (card {f \<in> set fs. c |\<in>| neighbors (sg_adj st) f}) else 0)))"
  using assms
proof (induction fs arbitrary: st)
  case Nil
  then show ?case by simp
next
  case (Cons f fs)
  from Cons.prems have d: "distinct fs" "f \<notin> set fs" by simp_all
  have split: "int (card {g \<in> set (f # fs). c |\<in>| neighbors (sg_adj st) g}) =
        (if c |\<in>| neighbors (sg_adj st) f then 1 else 0) +
        int (card {g \<in> set fs. c |\<in>| neighbors (sg_adj st) g})" for c
  proof (cases "c |\<in>| neighbors (sg_adj st) f")
    case True
    then have "{g \<in> set (f # fs). c |\<in>| neighbors (sg_adj st) g}
        = insert f {g \<in> set fs. c |\<in>| neighbors (sg_adj st) g}" by auto
    moreover have "f \<notin> {g \<in> set fs. c |\<in>| neighbors (sg_adj st) g}" using d(2) by simp
    ultimately show ?thesis using True by simp
  next
    case False
    then have "{g \<in> set (f # fs). c |\<in>| neighbors (sg_adj st) g}
        = {g \<in> set fs. c |\<in>| neighbors (sg_adj st) g}" by auto
    then show ?thesis using False by simp
  qed
  show ?case
  proof (cases "fmlookup (sg_adj st) f")
    case None
    then have res: "suggest_outer u D (f # fs) st = suggest_outer u D fs st" by simp
    have "neighbors (sg_adj st) f = {||}" using None by simp
    with Cons.IH[OF d(1), of st] split show ?thesis unfolding res by simp
  next
    case (Some ff)
    define st1 where "st1 = suggest_inner u D (sorted_list_of_fset ff) st"
    have res: "suggest_outer u D (f # fs) st = suggest_outer u D fs st1"
      using Some by (simp add: st1_def)
    have "distinct (sorted_list_of_fset ff)" by (simp add: sorted_list_of_fset.rep_eq)
    from suggest_inner_spec[OF this, of u D st, folded st1_def]
    have adj1: "sg_adj st1 = sg_adj st"
      and dom1: "\<And>c. c |\<in>| fmdom (sg_counts st1) \<longleftrightarrow>
               c |\<in>| fmdom (sg_counts st) \<or> (c |\<in>| ff \<and> candidate (sg_adj st) u D c)"
      and cnt1: "\<And>c n. count_of (sg_counts st) c = int32 n \<Longrightarrow>
               count_of (sg_counts st1) c =
               int32 (n + (if c |\<in>| ff \<and> candidate (sg_adj st) u D c then 1 else 0))"
      by auto
    have nf: "neighbors (sg_adj st) f = ff" using Some by simp
    note IH = Cons.IH[OF d(1), of st1]
    have "c |\<in>| fmdom (sg_counts (suggest_outer u D fs st1)) \<longleftrightarrow>
          c |\<in>| fmdom (sg_counts st) \<or>
          (candidate (sg_adj st) u D c \<and> (\<exists>g \<in> set (f # fs). c |\<in>| neighbors (sg_adj st) g))" for c
      using IH dom1[of c] adj1 nf by auto
    moreover have "count_of (sg_counts (suggest_outer u D fs st1)) c =
          int32 (n + (if candidate (sg_adj st) u D c
                      then int (card {g \<in> set (f # fs). c |\<in>| neighbors (sg_adj st) g}) else 0))"
      if "count_of (sg_counts st) c = int32 n" for c n
    proof -
      let ?a = "if c |\<in>| ff \<and> candidate (sg_adj st) u D c then 1 else 0 :: int"
      let ?b = "if candidate (sg_adj st) u D c
                then int (card {g \<in> set fs. c |\<in>| neighbors (sg_adj st) g}) else 0"
      from cnt1[OF that] IH adj1
      have "count_of (sg_counts (suggest_outer u D fs st1)) c = int32 (n + ?a + ?b)"
        by simp
      moreover have "?a + ?b = (if candidate (sg_adj st) u D c
                      then int (card {g \<in> set (f # fs). c |\<in>| neighbors (sg_adj st) g}) else 0)"
        using split[of c] nf by simp
      ultimately show ?thesis by (simp add: add.assoc)
    qed
    ultimately show ?thesis unfolding res using IH adj1 by simp
  qed
qed

lemma set_insert_by: "set (insert_by lt x ys) = insert x (set ys)"
  by (induction ys) auto

lemma set_sort_by: "set (sort_by lt xs) = set xs"
  by (induction xs) (auto simp: set_insert_by)

lemma distinct_fst_insert_by:
  "distinct (map fst (insert_by lt x ys)) \<longleftrightarrow> fst x \<notin> fst ` set ys \<and> distinct (map fst ys)"
  by (induction ys) (auto simp: set_insert_by)

lemma distinct_fst_sort_by: "distinct (map fst (sort_by lt xs)) \<longleftrightarrow> distinct (map fst xs)"
  by (induction xs) (auto simp: distinct_fst_insert_by set_sort_by)

lemma sorted_insert_by:
  assumes "transp lt" "\<forall>y \<in> set ys. lt y x \<or> lt x y" "sorted_wrt lt ys"
  shows "sorted_wrt lt (insert_by lt x ys)"
  using assms(2,3)
proof (induction ys)
  case Nil
  then show ?case by simp
next
  case (Cons y ys)
  show ?case
  proof (cases "lt y x")
    case True
    with Cons show ?thesis by (auto simp: set_insert_by)
  next
    case False
    with Cons.prems(1) have xy: "lt x y" by simp
    have "lt x z" if "z \<in> set ys" for z
      using Cons.prems(2) that xy assms(1) by (auto dest: transpD)
    with xy Cons.prems(2) False show ?thesis by auto
  qed
qed

lemma sorted_sort_by:
  assumes "transp lt" "\<forall>x \<in> set xs. \<forall>y \<in> set xs. fst x \<noteq> fst y \<longrightarrow> lt x y \<or> lt y x"
    "distinct (map fst xs)"
  shows "sorted_wrt lt (sort_by lt xs)"
  using assms(2,3)
proof (induction xs)
  case Nil
  then show ?case by simp
next
  case (Cons x xs)
  have "lt y x \<or> lt x y" if "y \<in> set xs" for y
  proof -
    from that have "fst y \<in> fst ` set xs" by (rule imageI)
    moreover from Cons.prems(2) have "fst x \<notin> fst ` set xs" by simp
    ultimately have "fst y \<noteq> fst x" by metis
    with Cons.prems(1) that show ?thesis by auto
  qed
  then have "\<forall>y \<in> set (sort_by lt xs). lt y x \<or> lt x y"
    by (simp add: set_sort_by)
  moreover have "sorted_wrt lt (sort_by lt xs)" using Cons by auto
  ultimately show ?case using sorted_insert_by[OF assms(1)] by simp
qed

lemma transp_suggestion_before: "transp suggestion_before"
  by (rule transpI) (auto simp: suggestion_before_def split: if_splits)

lemma total_suggestion_before:
  "fst a \<noteq> fst b \<Longrightarrow> suggestion_before a b \<or> suggestion_before b a"
  by (auto simp: suggestion_before_def)

lemma sorted_list_of_fmap_set:
  "set (sorted_list_of_fmap m) = {(k, v). fmlookup m k = Some v}"
  by (auto simp: sorted_list_of_fmap_def fmlookup_dom_iff)

lemma sorted_list_of_fmap_distinct: "distinct (map fst (sorted_list_of_fmap m))"
  by (simp add: sorted_list_of_fmap_def comp_def sorted_list_of_fset.rep_eq)

lemma fof_score_card:
  "fof_score adj label c = int (card {f \<in> fset (neighbors adj label). c |\<in>| neighbors adj f})"
proof -
  have "fset (ffilter (\<lambda>f. c |\<in>| neighbors adj f) (neighbors adj label))
          = {f \<in> fset (neighbors adj label). c |\<in>| neighbors adj f}"
    by auto
  then show ?thesis by (simp add: fof_score_def fcard.rep_eq)
qed

lemma fof_score_le: "fof_score adj label c \<le> int (fcard (neighbors adj label))"
  unfolding fof_score_def
  by (auto intro!: fcard_mono)

lemma suggestFriends_counts:
  assumes "fmlookup adj label = Some D"
  defines "st \<equiv> suggest_outer label D (sorted_list_of_fset D) \<lparr>sg_adj = adj, sg_counts = fmempty\<rparr>"
  shows "sg_adj st = adj"
    and "fmlookup (sg_counts st) c = Some n \<longleftrightarrow>
         c |\<in>| fmdom adj \<and> c \<noteq> label \<and> c |\<notin>| neighbors adj label \<and>
         0 < fof_score adj label c \<and> n = int32 (fof_score adj label c)"
proof -
  have "distinct (sorted_list_of_fset D)" by (simp add: sorted_list_of_fset.rep_eq)
  note sp = suggest_outer_spec[OF this, of label D "\<lparr>sg_adj = adj, sg_counts = fmempty\<rparr>",
      folded st_def]
  from sp have adj: "sg_adj st = adj"
    and dom: "\<And>c. c |\<in>| fmdom (sg_counts st) \<longleftrightarrow>
        candidate adj label D c \<and> (\<exists>f \<in> fset D. c |\<in>| neighbors adj f)"
    by simp_all
  have "count_of (sg_counts \<lparr>sg_adj = adj, sg_counts = fmempty\<rparr>) c = int32 0" for c
    by (simp add: count_of_def)
  from sp[THEN conjunct2, THEN conjunct2, rule_format, OF this]
  have cnt: "count_of (sg_counts st) c =
        int32 (if candidate adj label D c then int (card {f \<in> fset D. c |\<in>| neighbors adj f}) else 0)"
    for c
    by simp
  show "sg_adj st = adj" by (rule adj)
  have nb: "neighbors adj label = D" using assms(1) by simp
  have pos: "(\<exists>f \<in> fset D. c |\<in>| neighbors adj f) \<longleftrightarrow> 0 < fof_score adj label c"
  proof -
    have "finite {f \<in> fset D. c |\<in>| neighbors adj f}" by simp
    then have "0 < card {f \<in> fset D. c |\<in>| neighbors adj f} \<longleftrightarrow>
        {f \<in> fset D. c |\<in>| neighbors adj f} \<noteq> {}"
      by (simp add: card_gt_0_iff)
    then show ?thesis by (auto simp: fof_score_card nb)
  qed
  have dom': "c |\<in>| fmdom (sg_counts st) \<longleftrightarrow> candidate adj label D c \<and> 0 < fof_score adj label c"
    using dom[of c] pos by simp
  have cnt': "candidate adj label D c \<Longrightarrow> count_of (sg_counts st) c = int32 (fof_score adj label c)"
    using cnt[of c] by (simp add: fof_score_card nb)
  show "fmlookup (sg_counts st) c = Some n \<longleftrightarrow>
         c |\<in>| fmdom adj \<and> c \<noteq> label \<and> c |\<notin>| neighbors adj label \<and>
         0 < fof_score adj label c \<and> n = int32 (fof_score adj label c)"
  proof
    assume a: "fmlookup (sg_counts st) c = Some n"
    then have "c |\<in>| fmdom (sg_counts st)" by (rule fmdomI)
    with dom' have c: "candidate adj label D c" "0 < fof_score adj label c" by simp_all
    from a have "count_of (sg_counts st) c = n" by (simp add: count_of_def)
    with cnt'[OF c(1)] c nb
    show "c |\<in>| fmdom adj \<and> c \<noteq> label \<and> c |\<notin>| neighbors adj label \<and>
         0 < fof_score adj label c \<and> n = int32 (fof_score adj label c)"
      by (simp add: candidate_def)
  next
    assume a: "c |\<in>| fmdom adj \<and> c \<noteq> label \<and> c |\<notin>| neighbors adj label \<and>
         0 < fof_score adj label c \<and> n = int32 (fof_score adj label c)"
    then have c: "candidate adj label D c" using nb by (simp add: candidate_def)
    with a dom' have "c |\<in>| fmdom (sg_counts st)" by simp
    then obtain n' where n': "fmlookup (sg_counts st) c = Some n'"
      by (auto simp: fmlookup_dom_iff)
    then have "count_of (sg_counts st) c = n'" by (simp add: count_of_def)
    with cnt'[OF c] a n' show "fmlookup (sg_counts st) c = Some n" by simp
  qed
qed

text \<open>
  The list that \<open>suggestFriends\<close> returns, in every graph: the candidates that at least one
  direct friend has as a friend, each with the number of such friends reduced to 32 bits.
\<close>

lemma suggestFriends_list:
  assumes "fmlookup adj label = Some D"
  shows "fst (suggestFriends adj label) =
           sort_by suggestion_before (sorted_list_of_fmap (sg_counts
             (suggest_outer label D (sorted_list_of_fset D) \<lparr>sg_adj = adj, sg_counts = fmempty\<rparr>)))"
  using assms by (simp add: suggestFriends_def Let_def)

lemma suggestFriends_set:
  assumes "label |\<in>| fmdom adj"
  shows "set (fst (suggestFriends adj label)) =
           {(c, sc). c |\<in>| fmdom adj \<and> c \<noteq> label \<and> c |\<notin>| neighbors adj label \<and>
                     0 < fof_score adj label c \<and> sc = int32 (fof_score adj label c)}"
proof -
  from assms obtain D where D: "fmlookup adj label = Some D" by (auto simp: fmlookup_dom_iff)
  show ?thesis
    unfolding suggestFriends_list[OF D] set_sort_by sorted_list_of_fmap_set
    by (simp add: suggestFriends_counts(2)[OF D])
qed

lemma suggestFriends_sorted:
  "distinct (map fst (fst (suggestFriends adj label))) \<and>
   sorted_wrt (\<lambda>a b. snd b < snd a \<or> (snd a = snd b \<and> fst a < fst b))
     (fst (suggestFriends adj label))"
proof (cases "fmlookup adj label")
  case None
  then show ?thesis by (simp add: suggestFriends_def)
next
  case (Some D)
  define m where "m = sg_counts
     (suggest_outer label D (sorted_list_of_fset D) \<lparr>sg_adj = adj, sg_counts = fmempty\<rparr>)"
  note r = suggestFriends_list[OF Some, folded m_def]
  have d: "distinct (map fst (fst (suggestFriends adj label)))"
    unfolding r by (simp add: distinct_fst_sort_by sorted_list_of_fmap_distinct)
  have "\<forall>x \<in> set (sorted_list_of_fmap m). \<forall>y \<in> set (sorted_list_of_fmap m).
          fst x \<noteq> fst y \<longrightarrow> suggestion_before x y \<or> suggestion_before y x"
    by (simp add: total_suggestion_before)
  then have "sorted_wrt suggestion_before (fst (suggestFriends adj label))"
    unfolding r
    by (rule sorted_sort_by[OF transp_suggestion_before _ sorted_list_of_fmap_distinct])
  moreover have "suggestion_before = (\<lambda>a b. snd b < snd a \<or> (snd a = snd b \<and> fst a < fst b))"
    by (auto simp: suggestion_before_def fun_eq_iff)
  ultimately have "sorted_wrt (\<lambda>a b. snd b < snd a \<or> (snd a = snd b \<and> fst a < fst b))
           (fst (suggestFriends adj label))" by simp
  with d show ?thesis by simp
qed

subsection \<open>The graph after a query\<close>

text \<open>
  For \<open>shortestPathBFS\<close> the corresponding facts are \<open>shortestPathBFS_returns_graph\<close> and
  \<open>shortestPathBFS_returns\<close> above.
\<close>

lemma getFriends_frame: "snd (snd (getFriends adj u)) = adj"
  by (simp add: getFriends_def split: option.splits)

lemma getMutualFriends_frame: "snd (snd (getMutualFriends adj a b)) = adj"
  by (simp add: getMutualFriends_def split: option.splits)

lemma suggestFriends_frame: "snd (snd (suggestFriends adj u)) = adj"
proof (cases "fmlookup adj u")
  case None
  then show ?thesis by (simp add: suggestFriends_def)
next
  case (Some D)
  from suggestFriends_counts(1)[OF Some] Some show ?thesis
    by (simp add: suggestFriends_def Let_def)
qed

lemma shortestPathDijkstra_frame: "\<exists>r m. shortestPathDijkstra adj s e = Some (Inr (r, m, adj))"
proof (cases "s |\<in>| fmdom adj \<and> e |\<in>| fmdom adj \<and> s \<noteq> e")
  case True
  then show ?thesis using shortestPathDijkstra_result[of s adj e] by auto
next
  case False
  then show ?thesis by (auto simp: shortestPathDijkstra_def fmlookup_dom_iff)
qed

subsection \<open>The chain of users\<close>

text \<open>
  In the graph that \<open>chain_calls n\<close> builds, the user \<open>label_of k\<close> is \<open>k\<close> edges from
  \<open>label_of 0\<close>. For \<open>n \<le> 2^31 + 1\<close> only the distance of the last user can leave the
  range of \<^verbatim>\<open>int\<close>, and the search from the first user to the last returns the
  distance \<open>n - 1\<close> reduced to 32 bits.
\<close>

declare label_of.simps [simp del]

lemma label_of_inj: "label_of n = label_of m \<Longrightarrow> n = m"
proof (induction n arbitrary: m rule: label_of.induct)
  case (1 n)
  show ?case
  proof (cases "n = 0")
    case True
    with "1.prems" show ?thesis
      by (cases "m = 0") (simp_all add: label_of.simps[of m] label_of.simps[of 0] split: if_splits)
  next
    case False
    with "1.prems" have m0: "m \<noteq> 0"
      by (cases "m = 0") (simp_all add: label_of.simps[of n] label_of.simps[of 0] split: if_splits)
    from "1.prems" False m0 have par: "even n = even m" and tl: "label_of (n div 2) = label_of (m div 2)"
      by (simp_all add: label_of.simps[of n] label_of.simps[of m] split: if_splits)
    from "1.IH"[OF False tl] have "n div 2 = m div 2" .
    with par show ?thesis by (metis dvd_div_mult_self odd_two_times_div_two_succ)
  qed
qed

lemma label_of_eq_iff [simp]: "label_of n = label_of m \<longleftrightarrow> n = m"
  using label_of_inj by auto

lemma add_users_lookup:
  "fmlookup (foldl perform g (map (\<lambda>i. AddUser (f i)) is)) v =
     (case fmlookup g v of
        Some s \<Rightarrow> Some s
      | None \<Rightarrow> if v \<in> f ` set is then Some {||} else None)"
proof (induction "is" arbitrary: g)
  case Nil
  then show ?case by (simp split: option.splits)
next
  case (Cons i "is")
  show ?case
    by (cases "fmlookup g (f i)")
       (auto simp: Cons.IH addUser_absent addUser_present split: option.splits)
qed

lemma add_links:
  assumes "\<forall>i \<le> m. label_of i |\<in>| fmdom g"
  shows "fmdom (foldl perform g (chain_links m)) = fmdom g \<and>
         (\<forall>v w. w |\<in>| neighbors (foldl perform g (chain_links m)) v \<longleftrightarrow>
               w |\<in>| neighbors g v \<or>
               (\<exists>i<m. v = label_of i \<and> w = label_of (Suc i)) \<or>
               (\<exists>i<m. v = label_of (Suc i) \<and> w = label_of i))"
  using assms
proof (induction m)
  case 0
  then show ?case by (simp add: chain_links_def)
next
  case (Suc m)
  define g' where "g' = foldl perform g (chain_links m)"
  from Suc have IH: "fmdom g' = fmdom g"
    "\<And>v w. w |\<in>| neighbors g' v \<longleftrightarrow>
               w |\<in>| neighbors g v \<or>
               (\<exists>i<m. v = label_of i \<and> w = label_of (Suc i)) \<or>
               (\<exists>i<m. v = label_of (Suc i) \<and> w = label_of i)"
    by (simp_all add: g'_def)
  have step: "foldl perform g (chain_links (Suc m))
              = snd (addFriendship g' (label_of m) (label_of (Suc m)))"
    by (simp add: chain_links_def g'_def)
  have present: "fmlookup g' (label_of m) \<noteq> None" "fmlookup g' (label_of (Suc m)) \<noteq> None"
    using Suc.prems IH(1) by (auto simp: fmlookup_dom_iff[symmetric])
  have dom: "fmdom (foldl perform g (chain_links (Suc m))) = fmdom g"
    unfolding step by (simp add: fmdom_addFriendship IH(1))
  have nb: "w |\<in>| neighbors (foldl perform g (chain_links (Suc m))) v \<longleftrightarrow>
               w |\<in>| neighbors g v \<or>
               (\<exists>i<Suc m. v = label_of i \<and> w = label_of (Suc i)) \<or>
               (\<exists>i<Suc m. v = label_of (Suc i) \<and> w = label_of i)"
    for v w
    unfolding step using present
    by (auto simp: neighbors_addFriendship IH(2) less_Suc_eq)
  from dom nb show ?case by blast
qed

lemma run_chain_calls:
  "run (chain_calls n) =
     foldl perform (foldl perform fmempty (map (\<lambda>i. AddUser (label_of i)) [0..<n]))
       (chain_links (n - 1))"
  by (simp add: run_def chain_calls_def chain_links_def)

lemma chain_users_lookup:
  "fmlookup (foldl perform fmempty (map (\<lambda>i. AddUser (label_of i)) [0..<n])) v =
     (if \<exists>i<n. v = label_of i then Some {||} else None)"
  by (auto simp: add_users_lookup)

lemma chain_dom: "v |\<in>| fmdom (run (chain_calls n)) \<longleftrightarrow> (\<exists>i<n. v = label_of i)"
proof (cases "n = 0")
  case True
  then show ?thesis by (simp add: run_chain_calls chain_links_def)
next
  case False
  let ?g = "foldl perform fmempty (map (\<lambda>i. AddUser (label_of i)) [0..<n])"
  have "i < n" if "i \<le> n - 1" for i using that False by simp
  then have "\<forall>i \<le> n - 1. label_of i |\<in>| fmdom ?g"
    by (auto simp: fmlookup_dom_iff chain_users_lookup)
  from add_links[OF this] show ?thesis
    by (auto simp: run_chain_calls fmlookup_dom_iff chain_users_lookup)
qed

lemma chain_neighbors:
  "w |\<in>| neighbors (run (chain_calls n)) v \<longleftrightarrow>
     (\<exists>i. Suc i < n \<and> ((v = label_of i \<and> w = label_of (Suc i)) \<or>
                         (v = label_of (Suc i) \<and> w = label_of i)))"
proof (cases "n = 0")
  case True
  then show ?thesis by (simp add: run_chain_calls chain_links_def neighbors_lookup)
next
  case False
  let ?g = "foldl perform fmempty (map (\<lambda>i. AddUser (label_of i)) [0..<n])"
  have "i < n" if "i \<le> n - 1" for i using that False by simp
  then have "\<forall>i \<le> n - 1. label_of i |\<in>| fmdom ?g"
    by (auto simp: fmlookup_dom_iff chain_users_lookup)
  from add_links[OF this]
  have "w |\<in>| neighbors (run (chain_calls n)) v \<longleftrightarrow>
               w |\<in>| neighbors ?g v \<or>
               (\<exists>i<n - 1. v = label_of i \<and> w = label_of (Suc i)) \<or>
               (\<exists>i<n - 1. v = label_of (Suc i) \<and> w = label_of i)"
    by (simp add: run_chain_calls)
  moreover have "neighbors ?g v = {||}"
    by (simp add: neighbors_lookup chain_users_lookup)
  moreover have "i < n - 1 \<longleftrightarrow> Suc i < n" for i using False by auto
  ultimately show ?thesis by auto
qed

lemma chain_walk_up: "i < n \<Longrightarrow> walk (run (chain_calls n)) (label_of 0) i (label_of i)"
proof (induction i)
  case 0
  then show ?case by simp
next
  case (Suc i)
  then have "walk (run (chain_calls n)) (label_of 0) i (label_of i)" by simp
  moreover have "edge (run (chain_calls n)) (label_of i) (label_of (Suc i))"
    using Suc.prems by (auto simp: edge_def chain_dom chain_neighbors)
  ultimately show ?case by (rule walk_step)
qed

lemma chain_walk_bound:
  "walk (run (chain_calls n)) (label_of 0) k v \<Longrightarrow> \<exists>j \<le> k. v = label_of j"
proof (induction rule: walk.induct)
  case walk_start
  then show ?case by simp
next
  case (walk_step k u v)
  then obtain j where j: "j \<le> k" "u = label_of j" by blast
  from walk_step(2) have "v |\<in>| neighbors (run (chain_calls n)) u" by (simp add: edge_def)
  with j(2) have "v = label_of (Suc j) \<or> (0 < j \<and> v = label_of (j - 1))"
    by (auto simp: chain_neighbors)
  with j(1) show ?case by (metis diff_le_self le_SucI le_trans not_less_eq_eq)
qed

lemma chain_shortest:
  assumes "0 < n"
  shows "shortest (run (chain_calls n)) (label_of 0) (label_of (n - 1)) (n - 1)"
proof -
  have "walk (run (chain_calls n)) (label_of 0) (n - 1) (label_of (n - 1))"
    using assms by (intro chain_walk_up) simp
  moreover have "n - 1 \<le> m" if "walk (run (chain_calls n)) (label_of 0) m (label_of (n - 1))" for m
    using chain_walk_bound[OF that] by auto
  ultimately show ?thesis by (simp add: shortest_def)
qed

lemma chain_level:
  assumes "shortest (run (chain_calls n)) (label_of 0) v k" "0 < n"
  shows "v = label_of k"
proof -
  from assms(1) have w: "walk (run (chain_calls n)) (label_of 0) k v"
    and least: "\<And>m. walk (run (chain_calls n)) (label_of 0) m v \<Longrightarrow> k \<le> m"
    by (simp_all add: shortest_def)
  from chain_walk_bound[OF w] obtain j where j: "j \<le> k" "v = label_of j" by blast
  have "label_of 0 |\<in>| fmdom (run (chain_calls n))" using assms(2) by (auto simp: chain_dom)
  from walk_in_dom[OF w this] j(2) have "j < n" by (simp add: chain_dom)
  from chain_walk_up[OF this] j(2) have "k \<le> j" by (intro least) simp
  with j show ?thesis by simp
qed

lemma chain_levels_fit:
  assumes "0 < n" "n \<le> 2147483649"
  shows "levels_fit (run (chain_calls n)) (label_of 0) (label_of (n - 1))"
  unfolding levels_fit_def
proof (intro allI impI)
  fix v k
  assume a: "v \<noteq> label_of (n - 1) \<and> shortest (run (chain_calls n)) (label_of 0) v k \<and>
      (\<forall>m. walk (run (chain_calls n)) (label_of 0) m (label_of (n - 1)) \<longrightarrow> k \<le> m)"
  have "walk (run (chain_calls n)) (label_of 0) (n - 1) (label_of (n - 1))"
    using assms(1) by (intro chain_walk_up) simp
  with a have "k \<le> n - 1" by blast
  moreover from a chain_level[OF _ assms(1)] have "k \<noteq> n - 1" by blast
  ultimately show "int k \<le> INT_MAX" using assms(2) by (simp add: INT_MAX_def)
qed

lemma chain_bfs:
  assumes "1 < n" "n \<le> 2147483649"
  shows "\<exists>p. shortestPathBFS (run (chain_calls n)) (label_of 0) (label_of (n - 1))
           = Some (Inr ((int32 (int (n - 1)), p), None, run (chain_calls n)))"
proof -
  let ?g = "run (chain_calls n)"
  from assms(1) have pos: "0 < n" by simp
  have s: "label_of 0 |\<in>| fmdom ?g" and e: "label_of (n - 1) |\<in>| fmdom ?g"
    using assms(1) by (auto simp: chain_dom)
  have ne: "label_of 0 \<noteq> label_of (n - 1)" using assms(1) by simp
  note sh = chain_shortest[OF pos]
  then have w: "walk ?g (label_of 0) (n - 1) (label_of (n - 1))" by (simp add: shortest_def)
  from shortestPathBFS_result[OF s e ne chain_levels_fit[OF pos assms(2)]] w
  obtain k p where r: "shortestPathBFS ?g (label_of 0) (label_of (n - 1))
          = Some (Inr ((int32 (int k), p), None, ?g))"
    and k: "shortest ?g (label_of 0) (label_of (n - 1)) k"
    by blast
  from shortest_unique[OF k sh] r show ?thesis by auto
qed

subsection \<open>The user with many friends\<close>

lemma label_of_other [simp]:
  "label_of i \<noteq> ''hub''" "label_of i \<noteq> ''far''" "''hub'' \<noteq> label_of i" "''far'' \<noteq> label_of i"
  by (subst label_of.simps, simp)+

lemma add_friendships:
  assumes "\<forall>i < n. a i |\<in>| fmdom g \<and> b i |\<in>| fmdom g"
  shows "fmdom (foldl perform g (map (\<lambda>i. AddFriendship (a i) (b i)) [0..<n])) = fmdom g \<and>
         (\<forall>v w. w |\<in>| neighbors (foldl perform g (map (\<lambda>i. AddFriendship (a i) (b i)) [0..<n])) v
               \<longleftrightarrow>
               w |\<in>| neighbors g v \<or>
               (\<exists>i<n. v = a i \<and> w = b i) \<or>
               (\<exists>i<n. v = b i \<and> w = a i))"
  using assms
proof (induction n)
  case 0
  then show ?case by simp
next
  case (Suc n)
  define g' where "g' = foldl perform g (map (\<lambda>i. AddFriendship (a i) (b i)) [0..<n])"
  from Suc have IH: "fmdom g' = fmdom g"
    "\<And>v w. w |\<in>| neighbors g' v \<longleftrightarrow>
               w |\<in>| neighbors g v \<or>
               (\<exists>i<n. v = a i \<and> w = b i) \<or>
               (\<exists>i<n. v = b i \<and> w = a i)"
    by (simp_all add: g'_def)
  have step: "foldl perform g (map (\<lambda>i. AddFriendship (a i) (b i)) [0..<Suc n])
              = snd (addFriendship g' (a n) (b n))"
    by (simp add: g'_def)
  have present: "fmlookup g' (a n) \<noteq> None" "fmlookup g' (b n) \<noteq> None"
    using Suc.prems IH(1) by (auto simp: fmlookup_dom_iff[symmetric])
  have dom: "fmdom (foldl perform g (map (\<lambda>i. AddFriendship (a i) (b i)) [0..<Suc n])) = fmdom g"
    unfolding step by (simp add: fmdom_addFriendship IH(1))
  have nb: "w |\<in>| neighbors (foldl perform g (map (\<lambda>i. AddFriendship (a i) (b i)) [0..<Suc n])) v
              \<longleftrightarrow>
               w |\<in>| neighbors g v \<or>
               (\<exists>i<Suc n. v = a i \<and> w = b i) \<or>
               (\<exists>i<Suc n. v = b i \<and> w = a i)"
    for v w
    unfolding step using present
    by (auto simp: neighbors_addFriendship IH(2) less_Suc_eq)
  from dom nb show ?case by blast
qed

lemma star_graph:
  "(v |\<in>| fmdom (run (star_calls n)) \<longleftrightarrow> v = ''hub'' \<or> v = ''far'' \<or> (\<exists>i<n. v = label_of i)) \<and>
   (w |\<in>| neighbors (run (star_calls n)) v \<longleftrightarrow>
      (\<exists>i<n. (v = ''hub'' \<and> w = label_of i) \<or> (v = label_of i \<and> w = ''hub'') \<or>
              (v = label_of i \<and> w = ''far'') \<or> (v = ''far'' \<and> w = label_of i)))"
proof -
  define g0 where "g0 = foldl perform (run [AddUser ''hub'', AddUser ''far''])
      (map (\<lambda>i. AddUser (label_of i)) [0..<n])"
  define g1 where "g1 = foldl perform g0 (map (\<lambda>i. AddFriendship ''hub'' (label_of i)) [0..<n])"
  have r: "run (star_calls n) =
      foldl perform g1 (map (\<lambda>i. AddFriendship (label_of i) ''far'') [0..<n])"
    by (simp add: run_def star_calls_def g0_def g1_def)
  have two: "fmlookup (run [AddUser ''hub'', AddUser ''far'']) v =
      (if v = ''hub'' \<or> v = ''far'' then Some {||} else None)" for v
    by (simp add: run_def addUser_def index_default_def)
  have l0: "fmlookup g0 v =
      (if v = ''hub'' \<or> v = ''far'' \<or> (\<exists>i<n. v = label_of i) then Some {||} else None)" for v
    unfolding g0_def add_users_lookup two by auto
  have d0: "v |\<in>| fmdom g0 \<longleftrightarrow> v = ''hub'' \<or> v = ''far'' \<or> (\<exists>i<n. v = label_of i)" for v
    by (simp add: fmlookup_dom_iff l0)
  have n0: "neighbors g0 v = {||}" for v
    by (simp add: neighbors_lookup l0)
  have "\<forall>i < n. ''hub'' |\<in>| fmdom g0 \<and> label_of i |\<in>| fmdom g0"
    by (auto simp: d0)
  from add_friendships[OF this, folded g1_def]
  have d1: "fmdom g1 = fmdom g0"
    and n1: "\<And>v w. w |\<in>| neighbors g1 v \<longleftrightarrow>
        (\<exists>i<n. v = ''hub'' \<and> w = label_of i) \<or> (\<exists>i<n. v = label_of i \<and> w = ''hub'')"
    by (simp_all add: n0)
  have "\<forall>i < n. label_of i |\<in>| fmdom g1 \<and> ''far'' |\<in>| fmdom g1"
    by (auto simp: d1 d0)
  from add_friendships[OF this, folded r]
  have d2: "fmdom (run (star_calls n)) = fmdom g1"
    and n2: "\<And>v w. w |\<in>| neighbors (run (star_calls n)) v \<longleftrightarrow>
        w |\<in>| neighbors g1 v \<or>
        (\<exists>i<n. v = label_of i \<and> w = ''far'') \<or> (\<exists>i<n. v = ''far'' \<and> w = label_of i)"
    by simp_all
  show ?thesis
    unfolding d2 d1 d0 n2 n1 by auto
qed

lemma star_score: "fof_score (run (star_calls n)) ''hub'' ''far'' = int n"
proof -
  have "{f \<in> fset (neighbors (run (star_calls n)) ''hub'').
          ''far'' |\<in>| neighbors (run (star_calls n)) f} = label_of ` {..<n}"
    by (auto simp: star_graph)
  moreover have "card (label_of ` {..<n}) = n"
    by (simp add: card_image inj_on_def)
  ultimately show ?thesis by (simp add: fof_score_card)
qed

section \<open>The claims\<close>

text \<open>
  Claim C1 does not hold as stated: \<open>shortestPathBFS\<close> returns the distance in an \<^verbatim>\<open>int\<close>,
  whose largest value is \<open>INT_MAX = 2^31 - 1\<close>. Between the two ends of a chain of
  \<open>2^31 + 1\<close> users the least number of edges is \<open>2^31\<close>, and the search returns \<open>-2^31\<close>
  (the counterexample). What holds: in a reachable graph, for users \<open>s\<close> and \<open>e\<close> of the
  graph whose least number of edges, when a path connects them, is at most \<open>INT_MAX\<close>,
  \<open>shortestPathBFS\<close> returns; a distance \<open>d \<ge> 0\<close> that it returns is the least number of
  edges of a path from \<open>s\<close> to \<open>e\<close>; and when \<open>s\<close> and \<open>e\<close> are connected it returns that
  least number, not the sentinel \<open>-1\<close>.
\<close>

theorem shortestPathBFS_minimum:
  assumes "reachable adj" "s |\<in>| fmdom adj" "e |\<in>| fmdom adj"
    and "\<forall>n. min_edges adj s e n \<longrightarrow> int n \<le> INT_MAX"
  shows "\<exists>d p m. shortestPathBFS adj s e = Some (Inr ((d, p), m, adj)) \<and>
           (0 \<le> d \<longrightarrow> min_edges adj s e (nat d)) \<and>
           (connected adj s e \<longrightarrow> 0 \<le> d \<and> min_edges adj s e (nat d))"
proof (cases "s = e")
  case True
  have "min_edges adj s s 0"
    using reachable_closed[OF assms(1)] shortest_start by (rule shortest_imp_min_edges)
  with True shortestPathBFS_self[OF assms(2)] show ?thesis by simp
next
  case False
  note cl = reachable_closed[OF assms(1)]
  show ?thesis
  proof (cases "\<exists>n. walk adj s n e")
    case True
    then obtain n where n: "shortest adj s e n" using walk_exists_shortest by blast
    note me = shortest_imp_min_edges[OF cl n]
    with assms(4) have "int n \<le> INT_MAX" by simp
    from shortestPathBFS_exact[OF assms(2,3) False n this]
    obtain p where "shortestPathBFS adj s e = Some (Inr ((int n, p), None, adj))" by blast
    with me show ?thesis by simp
  next
    case nw: False
    then have "\<forall>n. \<not> walk adj s n e" by simp
    note r = shortestPathBFS_no_walk[OF assms(2,3) False this]
    from nw have "\<not> connected adj s e" using connected_imp_walk[OF cl] by blast
    with r show ?thesis by simp
  qed
qed

theorem shortestPathBFS_not_minimum:
  "reachable (run (chain_calls 2147483649)) \<and>
   label_of 0 |\<in>| fmdom (run (chain_calls 2147483649)) \<and>
   label_of 2147483648 |\<in>| fmdom (run (chain_calls 2147483649)) \<and>
   connected (run (chain_calls 2147483649)) (label_of 0) (label_of 2147483648) \<and>
   min_edges (run (chain_calls 2147483649)) (label_of 0) (label_of 2147483648) 2147483648 \<and>
   fst (fst (projr (the (shortestPathBFS (run (chain_calls 2147483649))
     (label_of 0) (label_of 2147483648))))) = - 2147483648"
proof -
  let ?g = "run (chain_calls 2147483649)"
  have r: "reachable ?g" by (rule reachable_run)
  have s: "label_of 0 |\<in>| fmdom ?g" and e: "label_of 2147483648 |\<in>| fmdom ?g"
    by (auto simp: chain_dom)
  have sh: "shortest ?g (label_of 0) (label_of 2147483648) 2147483648"
    using chain_shortest[of 2147483649] by simp
  then have "walk ?g (label_of 0) 2147483648 (label_of 2147483648)" by (simp add: shortest_def)
  then have c: "connected ?g (label_of 0) (label_of 2147483648)" by (rule walk_imp_connected)
  have me: "min_edges ?g (label_of 0) (label_of 2147483648) 2147483648"
    using reachable_closed[OF r] sh by (rule shortest_imp_min_edges)
  have w: "int32 (int 2147483648) = - 2147483648" by (simp add: int32_def)
  from chain_bfs[of 2147483649] w
  have "fst (fst (projr (the (shortestPathBFS ?g (label_of 0) (label_of 2147483648)))))
      = - 2147483648" by auto
  with r s e c me show ?thesis by blast
qed

theorem shortestPathBFS_minimum_witness:
  "shortestPathBFS (run sample_calls) ''Alice'' ''Eve''
     = Some (Inr ((2, [''Alice'', ''Charlie'', ''Eve'']), None, run sample_calls)) \<and>
   min_edges (run sample_calls) ''Alice'' ''Eve'' 2"
proof -
  have ev: "shortestPathBFS (run sample_calls) ''Alice'' ''Eve''
     = Some (Inr ((2, [''Alice'', ''Charlie'', ''Eve'']), None, run sample_calls))"
    by code_simp
  have small: "int (fcard (fmdom (run sample_calls))) \<le> INT_MAX"
    by code_simp
  have fit: "\<forall>n. min_edges (run sample_calls) ''Alice'' ''Eve'' n \<longrightarrow> int n \<le> INT_MAX"
    using min_edges_less_users[OF reachable_closed[OF sample_reachable] sample_users(1)] small
    by fastforce
  from shortestPathBFS_minimum [OF sample_reachable sample_users(1,2) fit] ev
  show ?thesis by auto
qed

text \<open>
  Claim C2 is right and the code breaks it: \<open>shortestPathDijkstra\<close> marks an unreached user
  by the distance \<^verbatim>\<open>INF\<close> \<open>= INT_MAX\<close> and relaxes an edge only to a distance below it
  (\<^verbatim>\<open>dist[u] + weight < dist[v]\<close>), so a user whose distance is \<open>INT_MAX\<close> is never
  reached. Between the two ends of a chain of \<open>2^31\<close> users, a reachable graph, the least
  number of edges is \<open>2^31 - 1\<close>: \<open>shortestPathBFS\<close> returns it, and \<open>shortestPathDijkstra\<close>
  returns \<open>-1\<close> with the empty path and prints that no path was found.
\<close>

theorem bfs_dijkstra_disagree:
  "reachable (run (chain_calls 2147483648)) \<and>
   label_of 0 |\<in>| fmdom (run (chain_calls 2147483648)) \<and>
   label_of 2147483647 |\<in>| fmdom (run (chain_calls 2147483648)) \<and>
   fst (fst (projr (the (shortestPathBFS (run (chain_calls 2147483648))
     (label_of 0) (label_of 2147483647))))) = 2147483647 \<and>
   shortestPathDijkstra (run (chain_calls 2147483648)) (label_of 0) (label_of 2147483647)
     = Some (Inr ((- 1, []), Some (NoPathFound Dijkstra (label_of 0) (label_of 2147483647)),
                  run (chain_calls 2147483648)))"
proof -
  let ?g = "run (chain_calls 2147483648)"
  have s: "label_of 0 |\<in>| fmdom ?g" and e: "label_of 2147483647 |\<in>| fmdom ?g"
    by (auto simp: chain_dom)
  have ne: "label_of 0 \<noteq> label_of 2147483647" by simp
  have sh: "shortest ?g (label_of 0) (label_of 2147483647) 2147483647"
    using chain_shortest[of 2147483648] by simp
  have w: "int32 (int 2147483647) = 2147483647" by (simp add: int32_def)
  from chain_bfs[of 2147483648] w
  have bfs: "fst (fst (projr (the (shortestPathBFS ?g (label_of 0) (label_of 2147483647)))))
      = 2147483647" by auto
  have dj: "shortestPathDijkstra ?g (label_of 0) (label_of 2147483647)
     = Some (Inr ((- 1, []), Some (NoPathFound Dijkstra (label_of 0) (label_of 2147483647)), ?g))"
  proof -
    have "\<not> (\<exists>n p. shortestPathDijkstra ?g (label_of 0) (label_of 2147483647)
            = Some (Inr ((int n, p), None, ?g)) \<and>
            shortest ?g (label_of 0) (label_of 2147483647) n \<and> int n < INF_int)"
    proof
      assume "\<exists>n p. shortestPathDijkstra ?g (label_of 0) (label_of 2147483647)
            = Some (Inr ((int n, p), None, ?g)) \<and>
            shortest ?g (label_of 0) (label_of 2147483647) n \<and> int n < INF_int"
      then obtain n where n: "shortest ?g (label_of 0) (label_of 2147483647) n" "int n < INF_int"
        by blast
      from shortest_unique[OF n(1) sh] n(2) show False by (simp add: INF_int_def)
    qed
    with shortestPathDijkstra_result[OF s e ne] show ?thesis by blast
  qed
  with s e bfs reachable_run[of "chain_calls 2147483648"] show ?thesis by blast
qed

text \<open>
  Claim C3 does not hold as stated: the score is counted in an \<^verbatim>\<open>int\<close>. With \<open>2^31\<close>
  friends of \<open>hub\<close> that all have \<open>far\<close> as a friend, the number of friends through which
  \<open>far\<close> is reached is \<open>2^31\<close> and \<open>suggestFriends\<close> lists \<open>far\<close> with the score \<open>-2^31\<close>
  (the counterexample). What holds: for every graph state and every label of the graph
  such that no candidate is reached through more than \<open>INT_MAX\<close> friends, \<open>suggestFriends\<close>
  returns exactly the pairs \<open>(c, sc)\<close> in which \<open>c\<close> is a user of the graph other than the
  label and not one of its friends, \<open>sc\<close> is the number of friends of the label that have
  \<open>c\<close> as a friend, and \<open>sc > 0\<close>; no candidate is listed twice; the list is ordered by
  score descending, then by label ascending; no pair has the score 0.
\<close>

theorem suggestFriends_scores:
  assumes "label |\<in>| fmdom adj"
    and "\<forall>c. c |\<in>| fmdom adj \<and> c \<noteq> label \<and> c |\<notin>| neighbors adj label \<longrightarrow>
             fof_score adj label c \<le> INT_MAX"
  shows "set (fst (suggestFriends adj label)) =
           {(c, sc). c |\<in>| fmdom adj \<and> c \<noteq> label \<and> c |\<notin>| neighbors adj label \<and>
                     sc = fof_score adj label c \<and> 0 < sc} \<and>
         distinct (map fst (fst (suggestFriends adj label))) \<and>
         sorted_wrt (\<lambda>a b. snd b < snd a \<or> (snd a = snd b \<and> fst a < fst b))
           (fst (suggestFriends adj label)) \<and>
         (\<forall>x \<in> set (fst (suggestFriends adj label)). snd x \<noteq> 0)"
proof -
  have fit: "int32 (fof_score adj label c) = fof_score adj label c"
    if "c |\<in>| fmdom adj" "c \<noteq> label" "c |\<notin>| neighbors adj label" for c
  proof -
    have "0 \<le> fof_score adj label c" by (simp add: fof_score_def)
    moreover from assms(2) that have "fof_score adj label c \<le> INT_MAX" by blast
    ultimately show ?thesis by (intro int32_id) simp_all
  qed
  have s: "set (fst (suggestFriends adj label)) =
           {(c, sc). c |\<in>| fmdom adj \<and> c \<noteq> label \<and> c |\<notin>| neighbors adj label \<and>
                     sc = fof_score adj label c \<and> 0 < sc}"
    unfolding suggestFriends_set[OF assms(1)] using fit by auto
  have nz: "\<forall>x \<in> set (fst (suggestFriends adj label)). snd x \<noteq> 0"
    unfolding s by auto
  note so = suggestFriends_sorted[of adj label]
  show ?thesis by (intro conjI) (rule s so[THEN conjunct1] so[THEN conjunct2] nz)+
qed

theorem suggestFriends_score_wraps:
  "reachable (run (star_calls 2147483648)) \<and>
   ''hub'' |\<in>| fmdom (run (star_calls 2147483648)) \<and>
   ''far'' |\<in>| fmdom (run (star_calls 2147483648)) \<and>
   ''far'' |\<notin>| neighbors (run (star_calls 2147483648)) ''hub'' \<and>
   fof_score (run (star_calls 2147483648)) ''hub'' ''far'' = 2147483648 \<and>
   (''far'', - 2147483648) \<in> set (fst (suggestFriends (run (star_calls 2147483648)) ''hub'')) \<and>
   (''far'', 2147483648) \<notin> set (fst (suggestFriends (run (star_calls 2147483648)) ''hub''))"
proof -
  let ?g = "run (star_calls 2147483648)"
  have h: "''hub'' |\<in>| fmdom ?g" and f: "''far'' |\<in>| fmdom ?g"
    and n: "''far'' |\<notin>| neighbors ?g ''hub''"
    by (simp_all add: star_graph)
  have sc: "fof_score ?g ''hub'' ''far'' = 2147483648"
    using star_score[of 2147483648] by simp
  have w: "int32 2147483648 = - 2147483648" by (simp add: int32_def)
  have "(''far'', - 2147483648) \<in> set (fst (suggestFriends ?g ''hub''))"
    and "(''far'', 2147483648) \<notin> set (fst (suggestFriends ?g ''hub''))"
    unfolding suggestFriends_set[OF h] using f n sc w by simp_all
  with h f n sc reachable_run[of "star_calls 2147483648"] show ?thesis by blast
qed

theorem suggestFriends_scores_witness:
  "''Alice'' |\<in>| fmdom (run sample_calls) \<and>
   fst (suggestFriends (run sample_calls) ''Alice'') = [(''David'', 2), (''Eve'', 1)] \<and>
   fof_score (run sample_calls) ''Alice'' ''David'' = 2 \<and>
   fof_score (run sample_calls) ''Alice'' ''Eve'' = 1"
proof -
  have u: "''Alice'' |\<in>| fmdom (run sample_calls)" by code_simp
  have ev: "fst (suggestFriends (run sample_calls) ''Alice'') = [(''David'', 2), (''Eve'', 1)]"
    by code_simp
  have "int (fcard (neighbors (run sample_calls) ''Alice'')) \<le> INT_MAX" by code_simp
  with fof_score_le[of "run sample_calls" "''Alice''"]
  have fit: "\<forall>c. c |\<in>| fmdom (run sample_calls) \<and> c \<noteq> ''Alice'' \<and>
               c |\<notin>| neighbors (run sample_calls) ''Alice'' \<longrightarrow>
               fof_score (run sample_calls) ''Alice'' c \<le> INT_MAX"
    by (meson order_trans)
  note sub = suggestFriends_scores [OF u fit, THEN conjunct1, THEN equalityD1, THEN subsetD]
  have "(''David'', 2) \<in> set (fst (suggestFriends (run sample_calls) ''Alice''))"
    and "(''Eve'', 1) \<in> set (fst (suggestFriends (run sample_calls) ''Alice''))"
    by (simp_all add: ev)
  then have "fof_score (run sample_calls) ''Alice'' ''David'' = 2"
    and "fof_score (run sample_calls) ''Alice'' ''Eve'' = 1"
    by (auto dest!: sub)
  with u ev show ?thesis by simp
qed

text \<open>
  Claim C4. If either label is absent from the graph, \<open>addFriendship\<close> fails with the
  unknown-user condition (the message \<open>UsersDoNotExist\<close>) and returns the graph as it was;
  if both are present it reports no failure, keeps the set of users, adds each label to
  the other's friend set and leaves every other entry alone.
\<close>

theorem addFriendship_unknown_or_both:
  "(fmlookup adj a = None \<or> fmlookup adj b = None \<longrightarrow>
      (\<exists>m. addFriendship adj a b = (Some m, adj) \<and> unknown_user m)) \<and>
   (fmlookup adj a \<noteq> None \<and> fmlookup adj b \<noteq> None \<longrightarrow>
      (\<exists>m adj'. addFriendship adj a b = (Some m, adj') \<and> \<not> unknown_user m \<and>
         fmdom adj' = fmdom adj \<and>
         neighbors adj' a = finsert b (neighbors adj a) \<and>
         neighbors adj' b = finsert a (neighbors adj b) \<and>
         (\<forall>u. u \<noteq> a \<and> u \<noteq> b \<longrightarrow> fmlookup adj' u = fmlookup adj u)))"
proof (intro conjI impI)
  assume "fmlookup adj a = None \<or> fmlookup adj b = None"
  then show "\<exists>m. addFriendship adj a b = (Some m, adj) \<and> unknown_user m"
    by (simp add: addFriendship_absent)
next
  assume "fmlookup adj a \<noteq> None \<and> fmlookup adj b \<noteq> None"
  then obtain sa sb where s: "fmlookup adj a = Some sa" "fmlookup adj b = Some sb" by auto
  show "\<exists>m adj'. addFriendship adj a b = (Some m, adj') \<and> \<not> unknown_user m \<and>
         fmdom adj' = fmdom adj \<and>
         neighbors adj' a = finsert b (neighbors adj a) \<and>
         neighbors adj' b = finsert a (neighbors adj b) \<and>
         (\<forall>u. u \<noteq> a \<and> u \<noteq> b \<longrightarrow> fmlookup adj' u = fmlookup adj u)"
    using s by (auto simp: addFriendship_present dest: fmdomI)
qed

theorem addFriendship_unknown_or_both_witness:
  "addFriendship (run [AddUser ''Alice'']) ''Alice'' ''Bob''
     = (Some UsersDoNotExist, run [AddUser ''Alice'']) \<and>
   neighbors (snd (addFriendship (run [AddUser ''Alice'', AddUser ''Bob'']) ''Alice'' ''Bob''))
     ''Alice'' = {|''Bob''|} \<and>
   neighbors (snd (addFriendship (run [AddUser ''Alice'', AddUser ''Bob'']) ''Alice'' ''Bob''))
     ''Bob'' = {|''Alice''|}"
  using addFriendship_unknown_or_both [of "run [AddUser ''Alice'']" "''Alice''" "''Bob''"]
    addFriendship_unknown_or_both [of "run [AddUser ''Alice'', AddUser ''Bob'']" "''Alice''" "''Bob''"]
  by (auto simp: run_def addUser_def index_default_def addFriendship_def neighbors_lookup)

text \<open>
  Claim C5. Every operation preserves the two structural invariants of the adjacency
  mapping: the neighbour relation is symmetric, and every label in a friend set has an
  entry of its own. \<open>addUser\<close> and \<open>addFriendship\<close> keep them, the five queries return with
  a graph that has them, and both hold in every state reachable from the empty graph.
  \<open>shortestPathBFS\<close> never ends in an exception and leaves a graph that has them whenever
  it returns; it does return when the least number of edges between the two labels is at
  most \<open>INT_MAX\<close> or no walk connects them.
\<close>

theorem invariants_preserved:
  "(symmetric adj \<and> closed adj \<longrightarrow>
      symmetric (snd (addUser adj u)) \<and> closed (snd (addUser adj u)) \<and>
      symmetric (snd (addFriendship adj a b)) \<and> closed (snd (addFriendship adj a b)) \<and>
      symmetric (snd (snd (getFriends adj u))) \<and> closed (snd (snd (getFriends adj u))) \<and>
      symmetric (snd (snd (getMutualFriends adj a b))) \<and>
      closed (snd (snd (getMutualFriends adj a b))) \<and>
      symmetric (snd (snd (suggestFriends adj u))) \<and> closed (snd (snd (suggestFriends adj u))) \<and>
      (\<forall>x. shortestPathBFS adj a b = Some x \<longrightarrow>
         (\<exists>r m adj'. x = Inr (r, m, adj') \<and> symmetric adj' \<and> closed adj')) \<and>
      ((\<forall>n. shortest adj a b n \<longrightarrow> int n \<le> INT_MAX) \<longrightarrow>
         (\<exists>r m adj'. shortestPathBFS adj a b = Some (Inr (r, m, adj')) \<and>
            symmetric adj' \<and> closed adj')) \<and>
      (\<exists>r m adj'. shortestPathDijkstra adj a b = Some (Inr (r, m, adj')) \<and>
         symmetric adj' \<and> closed adj')) \<and>
   (reachable adj \<longrightarrow> symmetric adj \<and> closed adj)"
proof (intro conjI impI allI)
  assume a: "symmetric adj \<and> closed adj"
  then show "symmetric (snd (addUser adj u))" "closed (snd (addUser adj u))"
    "symmetric (snd (addFriendship adj a b))" "closed (snd (addFriendship adj a b))"
    by (simp_all add: symmetric_addUser closed_addUser symmetric_addFriendship closed_addFriendship)
  from a show "symmetric (snd (snd (getFriends adj u)))" "closed (snd (snd (getFriends adj u)))"
    "symmetric (snd (snd (getMutualFriends adj a b)))" "closed (snd (snd (getMutualFriends adj a b)))"
    "symmetric (snd (snd (suggestFriends adj u)))" "closed (snd (snd (suggestFriends adj u)))"
    by (simp_all only: getFriends_frame getMutualFriends_frame suggestFriends_frame)
  show "\<exists>r m adj'. x = Inr (r, m, adj') \<and> symmetric adj' \<and> closed adj'"
    if "shortestPathBFS adj a b = Some x" for x
    using shortestPathBFS_returns_graph[OF that] a by blast
  show "\<exists>r m adj'. shortestPathBFS adj a b = Some (Inr (r, m, adj')) \<and> symmetric adj' \<and> closed adj'"
    if "\<forall>n. shortest adj a b n \<longrightarrow> int n \<le> INT_MAX"
    using shortestPathBFS_returns[OF that] a by blast
  from a shortestPathDijkstra_frame[of adj a b]
  show "\<exists>r m adj'. shortestPathDijkstra adj a b = Some (Inr (r, m, adj')) \<and> symmetric adj' \<and> closed adj'"
    by blast
next
  assume "reachable adj"
  then show "symmetric adj" "closed adj" by (rule reachable_symmetric, rule reachable_closed)
qed

theorem invariants_preserved_witness:
  "symmetric (run sample_calls) \<and> closed (run sample_calls) \<and>
   symmetric (snd (addFriendship (run sample_calls) ''Alice'' ''Grace'')) \<and>
   closed (snd (addFriendship (run sample_calls) ''Alice'' ''Grace'')) \<and>
   symmetric (snd (addUser (run sample_calls) ''Ivan'')) \<and>
   closed (snd (addUser (run sample_calls) ''Ivan''))"
proof -
  have r: "reachable (run sample_calls)" by (rule reachable_run)
  note t = invariants_preserved [of "run sample_calls"]
  from t r have inv: "symmetric (run sample_calls) \<and> closed (run sample_calls)" by blast
  with t [of "''Ivan''" "''Alice''" "''Grace''"] show ?thesis by blast
qed

text \<open>
  Claim C6 does not hold as stated: \<open>addFriendship\<close> does not test whether its two labels
  differ, and \<open>addFriendship(a, a)\<close> on a user \<open>a\<close> puts \<open>a\<close> into its own friend set (the
  counterexample). What holds: in the graph built by a sequence of calls, a user is its
  own neighbour only if the sequence contains \<open>addFriendship\<close> of that user with itself;
  a sequence without such a call builds a graph without self-loops.
\<close>

theorem self_loop_only_from_self_friendship:
  "(u |\<in>| neighbors (run calls) u \<longrightarrow> AddFriendship u u \<in> set calls) \<and>
   ((\<forall>a. AddFriendship a a \<notin> set calls) \<longrightarrow> no_self_loop (run calls))"
  using self_loop_only_by_self_friendship by (auto simp: no_self_loop_iff)

theorem no_self_loop_counterexample:
  "reachable (run [AddUser ''Alice'', AddFriendship ''Alice'' ''Alice'']) \<and>
   ''Alice'' |\<in>| neighbors (run [AddUser ''Alice'', AddFriendship ''Alice'' ''Alice'']) ''Alice''"
  by (simp add: reachable_run) code_simp

theorem self_loop_only_from_self_friendship_witness:
  "''Alice'' |\<in>| neighbors (run [AddUser ''Alice'', AddFriendship ''Alice'' ''Alice'']) ''Alice'' \<and>
   AddFriendship ''Alice'' ''Alice'' \<in> set [AddUser ''Alice'', AddFriendship ''Alice'' ''Alice''] \<and>
   no_self_loop (run sample_calls)"
proof -
  have "\<forall>a. AddFriendship a a \<notin> set sample_calls" by (simp add: sample_calls_def)
  with self_loop_only_from_self_friendship [of u sample_calls for u]
  have "no_self_loop (run sample_calls)" by blast
  moreover have "''Alice'' |\<in>| neighbors (run [AddUser ''Alice'', AddFriendship ''Alice'' ''Alice'']) ''Alice''"
    by code_simp
  with self_loop_only_from_self_friendship
         [of "''Alice''" "[AddUser ''Alice'', AddFriendship ''Alice'' ''Alice'']"]
  have "AddFriendship ''Alice'' ''Alice'' \<in> set [AddUser ''Alice'', AddFriendship ''Alice'' ''Alice'']"
    by blast
  ultimately show ?thesis
    using \<open>''Alice'' |\<in>| neighbors (run [AddUser ''Alice'', AddFriendship ''Alice'' ''Alice'']) ''Alice''\<close>
    by blast
qed

text \<open>
  Claim C7 does not hold as stated: after \<open>addFriendship(a, a)\<close> and \<open>addFriendship(a, b)\<close>
  the user \<open>a\<close> is a friend of both \<open>a\<close> and \<open>b\<close>, and \<open>getMutualFriends(a, b)\<close> contains \<open>a\<close>
  (the counterexample). What holds, in every graph state, for users \<open>a\<close> and \<open>b\<close> of the
  graph: \<open>getMutualFriends\<close> prints nothing, leaves the graph alone and returns the
  intersection of the two friend sets; the result does not depend on the order of the
  arguments; and it contains \<open>a\<close> (or \<open>b\<close>) only if that user is its own neighbour.
\<close>

theorem getMutualFriends_intersection:
  assumes "a |\<in>| fmdom adj" "b |\<in>| fmdom adj"
  shows "getMutualFriends adj a b = (neighbors adj a |\<inter>| neighbors adj b, None, adj) \<and>
         fst (getMutualFriends adj a b) = fst (getMutualFriends adj b a) \<and>
         (a |\<notin>| neighbors adj a \<longrightarrow> a |\<notin>| fst (getMutualFriends adj a b)) \<and>
         (b |\<notin>| neighbors adj b \<longrightarrow> b |\<notin>| fst (getMutualFriends adj a b))"
  using getMutualFriends_neighbors[OF assms] getMutualFriends_neighbors[OF assms(2,1)]
  by (auto simp: inf_commute)

theorem mutual_friends_counterexample:
  "reachable (run [AddUser ''Alice'', AddUser ''Bob'', AddFriendship ''Alice'' ''Alice'',
                   AddFriendship ''Alice'' ''Bob'']) \<and>
   ''Alice'' |\<in>| fmdom (run [AddUser ''Alice'', AddUser ''Bob'', AddFriendship ''Alice'' ''Alice'',
                   AddFriendship ''Alice'' ''Bob'']) \<and>
   ''Bob'' |\<in>| fmdom (run [AddUser ''Alice'', AddUser ''Bob'', AddFriendship ''Alice'' ''Alice'',
                   AddFriendship ''Alice'' ''Bob'']) \<and>
   ''Alice'' |\<in>| fst (getMutualFriends
      (run [AddUser ''Alice'', AddUser ''Bob'', AddFriendship ''Alice'' ''Alice'',
            AddFriendship ''Alice'' ''Bob'']) ''Alice'' ''Bob'')"
  by (simp add: reachable_run) code_simp

theorem getMutualFriends_intersection_witness:
  "''Alice'' |\<in>| fmdom (run sample_calls) \<and> ''David'' |\<in>| fmdom (run sample_calls) \<and>
   ''Alice'' |\<notin>| neighbors (run sample_calls) ''Alice'' \<and>
   ''David'' |\<notin>| neighbors (run sample_calls) ''David'' \<and>
   getMutualFriends (run sample_calls) ''Alice'' ''David''
     = (neighbors (run sample_calls) ''Alice'' |\<inter>| neighbors (run sample_calls) ''David'',
        None, run sample_calls) \<and>
   ''Alice'' |\<notin>| fst (getMutualFriends (run sample_calls) ''Alice'' ''David'') \<and>
   ''David'' |\<notin>| fst (getMutualFriends (run sample_calls) ''Alice'' ''David'') \<and>
   fst (getMutualFriends (run sample_calls) ''Alice'' ''David'') = {|''Bob'', ''Charlie''|}"
proof -
  have u: "''Alice'' |\<in>| fmdom (run sample_calls)" "''David'' |\<in>| fmdom (run sample_calls)"
    by code_simp+
  have n: "''Alice'' |\<notin>| neighbors (run sample_calls) ''Alice''"
    "''David'' |\<notin>| neighbors (run sample_calls) ''David''"
    by code_simp+
  have ev: "fst (getMutualFriends (run sample_calls) ''Alice'' ''David'') = {|''Bob'', ''Charlie''|}"
    by code_simp
  from getMutualFriends_intersection [OF u] u n ev show ?thesis by blast
qed

text \<open>
  Claim C8. For every graph state and users \<open>s\<close> and \<open>e\<close> of the graph that no path
  connects, both searches return normally with the distance \<open>-1\<close> and the empty path; the
  line they print is the no-path notice, which is not an unknown-user failure.
\<close>

theorem no_path_outcome:
  assumes "s |\<in>| fmdom adj" "e |\<in>| fmdom adj" "\<not> connected adj s e"
  shows "shortestPathBFS adj s e = Some (Inr ((- 1, []), Some (NoPathFound BFS s e), adj)) \<and>
         shortestPathDijkstra adj s e
           = Some (Inr ((- 1, []), Some (NoPathFound Dijkstra s e), adj)) \<and>
         \<not> unknown_user (NoPathFound BFS s e) \<and> \<not> unknown_user (NoPathFound Dijkstra s e)"
proof -
  from assms(3) have ne: "s \<noteq> e" using connected_self by auto
  have nw: "\<not> walk adj s n e" for n using assms(3) walk_imp_connected by blast
  have "shortestPathBFS adj s e = Some (Inr ((- 1, []), Some (NoPathFound BFS s e), adj))"
    using nw by (intro shortestPathBFS_no_walk[OF assms(1,2) ne]) simp
  moreover have "shortestPathDijkstra adj s e
      = Some (Inr ((- 1, []), Some (NoPathFound Dijkstra s e), adj))"
    using shortestPathDijkstra_result[OF assms(1,2) ne] nw by (auto simp: shortest_def)
  ultimately show ?thesis by simp
qed

theorem no_path_outcome_witness:
  "\<not> connected (run sample_calls) ''Alice'' ''Grace'' \<and>
   shortestPathBFS (run sample_calls) ''Alice'' ''Grace''
     = Some (Inr ((- 1, []), Some (NoPathFound BFS ''Alice'' ''Grace''), run sample_calls)) \<and>
   shortestPathDijkstra (run sample_calls) ''Alice'' ''Grace''
     = Some (Inr ((- 1, []), Some (NoPathFound Dijkstra ''Alice'' ''Grace''), run sample_calls))"
proof -
  have ev: "shortestPathBFS (run sample_calls) ''Alice'' ''Grace''
     = Some (Inr ((- 1, []), Some (NoPathFound BFS ''Alice'' ''Grace''), run sample_calls))"
    by code_simp
  have small: "int (fcard (fmdom (run sample_calls))) \<le> INT_MAX"
    by code_simp
  have nc: "\<not> connected (run sample_calls) ''Alice'' ''Grace''"
    by (rule not_connected_by_search[OF reachable_closed[OF sample_reachable] sample_users(1,3)
          _ small ev]) simp
  from no_path_outcome [OF sample_users(1,3) nc] nc show ?thesis by simp
qed

text \<open>
  Claim C9. \<open>addUser\<close> is idempotent: a second call with the same label gives the graph of
  the first call, so the friends of the label are those after the first call; on a label
  that is present the call prints nothing and returns the graph as it was.
\<close>

theorem addUser_idempotent:
  "snd (addUser (snd (addUser adj u)) u) = snd (addUser adj u) \<and>
   fst (getFriends (snd (addUser (snd (addUser adj u)) u)) u) = fst (getFriends (snd (addUser adj u)) u) \<and>
   (fmlookup adj u \<noteq> None \<longrightarrow> addUser adj u = (None, adj))"
  by (cases "fmlookup adj u") (auto simp: addUser_absent addUser_present)

theorem addUser_idempotent_witness:
  "fmlookup (run [AddUser ''Alice'']) ''Alice'' \<noteq> None \<and>
   addUser (run [AddUser ''Alice'']) ''Alice'' = (None, run [AddUser ''Alice''])"
  using addUser_idempotent [of "run [AddUser ''Alice'']" "''Alice''"]
  by (simp add: run_def addUser_def index_default_def)

text \<open>
  Claim C10. The queries leave the adjacency structure as it was, for every graph state and
  all arguments: the graph that each of \<open>getFriends\<close>, \<open>getMutualFriends\<close>,
  \<open>suggestFriends\<close>, \<open>shortestPathBFS\<close> and \<open>shortestPathDijkstra\<close> returns with is the graph
  it was called on. \<open>shortestPathDijkstra\<close> always returns, without an exception.
  \<open>shortestPathBFS\<close> never ends in an exception; its search loop, the only part that reads
  the graph, always ends with the graph as it was; and the method returns when the least
  number of edges between the two labels is at most \<open>INT_MAX\<close> or no walk connects them
  (with a larger distance a recorded distance can wrap around to \<open>-1\<close>, and the parent
  links that the path is rebuilt from can then form a cycle).
\<close>

theorem queries_leave_graph:
  "snd (snd (getFriends adj u)) = adj \<and>
   snd (snd (getMutualFriends adj a b)) = adj \<and>
   snd (snd (suggestFriends adj u)) = adj \<and>
   (\<forall>x. shortestPathBFS adj s e = Some x \<longrightarrow> (\<exists>r m. x = Inr (r, m, adj))) \<and>
   (s |\<in>| fmdom adj \<longrightarrow>
      (\<exists>st. bfs_loop e (bfs_start adj s) = Some (Inr st) \<and> bfs_adj st = adj)) \<and>
   ((\<forall>n. shortest adj s e n \<longrightarrow> int n \<le> INT_MAX) \<longrightarrow>
      (\<exists>r m. shortestPathBFS adj s e = Some (Inr (r, m, adj)))) \<and>
   (\<exists>r m. shortestPathDijkstra adj s e = Some (Inr (r, m, adj)))"
proof (intro conjI allI impI)
  show "\<exists>st. bfs_loop e (bfs_start adj s) = Some (Inr st) \<and> bfs_adj st = adj"
    if "s |\<in>| fmdom adj"
    using bfs_loop_coarse[OF bfs_start_coarse[OF that], of e] by (auto simp: bfs_coarse_def)
qed (use getFriends_frame getMutualFriends_frame suggestFriends_frame
    shortestPathBFS_returns_graph shortestPathBFS_returns shortestPathDijkstra_frame in blast)+

theorem queries_leave_graph_witness:
  "shortestPathBFS (run sample_calls) ''Alice'' ''Heidi''
     = Some (Inr ((4, [''Alice'', ''Charlie'', ''Eve'', ''Frank'', ''Heidi'']), None, run sample_calls)) \<and>
   snd (snd (projr (the (shortestPathBFS (run sample_calls) ''Alice'' ''Heidi'')))) = run sample_calls \<and>
   bfs_adj (projr (the (bfs_loop ''Heidi'' (bfs_start (run sample_calls) ''Alice''))))
     = run sample_calls \<and>
   snd (snd (projr (the (shortestPathDijkstra (run sample_calls) ''Alice'' ''Heidi'')))) = run sample_calls \<and>
   snd (snd (suggestFriends (run sample_calls) ''Alice'')) = run sample_calls"
proof -
  have ev: "shortestPathBFS (run sample_calls) ''Alice'' ''Heidi''
     = Some (Inr ((4, [''Alice'', ''Charlie'', ''Eve'', ''Frank'', ''Heidi'']), None, run sample_calls))"
    by code_simp
  have small: "int (fcard (fmdom (run sample_calls))) \<le> INT_MAX"
    by code_simp
  have fit: "\<forall>n. shortest (run sample_calls) ''Alice'' ''Heidi'' n \<longrightarrow> int n \<le> INT_MAX"
    using shortest_less_users[OF _ sample_users(1)] small by fastforce
  note t = queries_leave_graph [of "run sample_calls" "''Alice''" "''Alice''" "''Heidi''"
      "''Alice''" "''Heidi''"]
  from t fit have "\<exists>r m. shortestPathBFS (run sample_calls) ''Alice'' ''Heidi''
      = Some (Inr (r, m, run sample_calls))" by blast
  then have b: "snd (snd (projr (the (shortestPathBFS (run sample_calls) ''Alice'' ''Heidi''))))
      = run sample_calls" by auto
  from t have "\<exists>r m. shortestPathDijkstra (run sample_calls) ''Alice'' ''Heidi''
      = Some (Inr (r, m, run sample_calls))" by blast
  then have d: "snd (snd (projr (the (shortestPathDijkstra (run sample_calls) ''Alice'' ''Heidi''))))
      = run sample_calls" by auto
  from t sample_users(1) have "\<exists>st. bfs_loop ''Heidi'' (bfs_start (run sample_calls) ''Alice'')
      = Some (Inr st) \<and> bfs_adj st = run sample_calls" by blast
  then have l: "bfs_adj (projr (the (bfs_loop ''Heidi'' (bfs_start (run sample_calls) ''Alice''))))
      = run sample_calls" by auto
  from t have "snd (snd (suggestFriends (run sample_calls) ''Alice'')) = run sample_calls" by blast
  with ev b d l show ?thesis by simp
qed

end
